theory Spec2Isabelle
  imports Main "HOL-Library.Sublist" "HOL-Library.Multiset"
begin

section \<open>Strings of the host language\<close>

text \<open>
  A JavaScript string is a sequence of UTF-16 code units. Regular expressions without the
  \<open>u\<close> flag, \<open>trim\<close>, \<open>startsWith\<close>, \<open>includes\<close> and \<open>split\<close> all work on
  code units, so a string is modelled as a list of code units (natural numbers below 65536).
  \<open>asc\<close> turns an ASCII literal into its code units; letters outside ASCII are written by
  their code unit (\<open>252\<close> is u-umlaut, \<open>601\<close> is schwa, \<open>305\<close> is dotless i;
  the inbox-tray emoji U+1F4E5 is the surrogate pair \<open>55357, 56549\<close>).
\<close>

type_synonym cu = nat
type_synonym jstr = "cu list"

definition asc :: "string \<Rightarrow> jstr" where
  "asc s = map of_char s"

text \<open>The code units matched by \<open>\s\<close> and removed by \<open>trim\<close>: white space and line terminators.\<close>

definition space_units :: "cu list" where
  "space_units = [9, 10, 11, 12, 13, 32, 160, 5760, 8192, 8193, 8194, 8195, 8196, 8197, 8198,
                  8199, 8200, 8201, 8202, 8232, 8233, 8239, 8287, 12288, 65279]"

definition is_space :: "cu \<Rightarrow> bool" where
  "is_space c = (c \<in> set space_units)"

definition is_line_terminator :: "cu \<Rightarrow> bool" where
  "is_line_terminator c = (c \<in> set [10, 13, 8232, 8233])"

definition trim :: "jstr \<Rightarrow> jstr" where
  "trim s = rev (dropWhile is_space (rev (dropWhile is_space s)))"

section \<open>Regular expressions\<close>

text \<open>
  The syntax of the regular expressions that occur in the program. \<open>Cls neg items\<close> is a
  character class (\<open>neg\<close> for \<open>[^...]\<close>), \<open>Rep mn mx greedy r\<close> a quantifier
  (\<open>*\<close> is \<open>Rep 0 None True\<close>, \<open>+\<close> is \<open>Rep 1 None True\<close>, \<open>?\<close> is
  \<open>Rep 0 (Some 1) True\<close>, \<open>{k,}\<close> is \<open>Rep k None True\<close>, \<open>*?\<close> is
  \<open>Rep 0 None False\<close>), \<open>Grp n r\<close> the n-th capturing group, \<open>Bref n\<close> the
  back reference \<open>\n\<close>, \<open>Bol\<close> and \<open>Eol\<close> the anchors \<open>^\<close> and \<open>$\<close>.
\<close>

datatype citem = CUnit cu | CRange cu cu | CSpace

datatype regex =
    Chr cu
  | Cls bool "citem list"
  | Dot
  | Seq regex regex
  | Alt regex regex
  | Rep nat "nat option" bool regex
  | Grp nat regex
  | Bref nat
  | Bol
  | Eol
  | Eps

type_synonym caps = "nat \<rightharpoonup> jstr"

text \<open>A matcher state: the index reached, the input that remains, and the captures so far.\<close>

type_synonym mstate = "nat \<times> jstr \<times> caps"

text \<open>
  Membership in a class item. \<open>cn\<close> is the canonicalisation of a code unit: the identity
  for a pattern without the \<open>i\<close> flag, the case folding of the runtime for one with it.
\<close>

fun item_has :: "(cu \<Rightarrow> cu) \<Rightarrow> citem \<Rightarrow> cu \<Rightarrow> bool" where
  "item_has cn (CUnit a) c = (cn a = cn c)"
| "item_has cn (CRange lo hi) c = list_ex (\<lambda>a. cn a = cn c) [lo..<Suc hi]"
| "item_has cn CSpace c = list_ex (\<lambda>a. cn a = cn c) space_units"

fun rsize :: "regex \<Rightarrow> nat" where
  "rsize (Seq a b) = Suc (rsize a + rsize b)"
| "rsize (Alt a b) = Suc (rsize a + rsize b)"
| "rsize (Rep mn mx g r) = Suc (rsize r)"
| "rsize (Grp n r) = Suc (rsize r)"
| "rsize _ = 0"

fun dec_max :: "nat option \<Rightarrow> nat option" where
  "dec_max None = None"
| "dec_max (Some k) = Some (k - 1)"

text \<open>
  The backtracking matcher, as the list of all the states in which a match of \<open>r\<close> started
  in state \<open>x\<close> can end, in the order in which backtracking tries them: the match the engine
  reports is the head of the list. A quantifier whose minimum is used up rejects an iteration
  that consumed nothing, as the language standard prescribes. (The standard also clears the
  captures of the groups inside a quantified expression at each iteration; no pattern of the
  program has a group under a quantifier.)
\<close>

function (sequential) m :: "(cu \<Rightarrow> cu) \<Rightarrow> regex \<Rightarrow> mstate \<Rightarrow> mstate list" where
  "m cn (Chr a) (i, rest, caps) =
     (case rest of [] \<Rightarrow> [] | c # cs \<Rightarrow> if cn c = cn a then [(Suc i, cs, caps)] else [])"
| "m cn (Cls neg items) (i, rest, caps) =
     (case rest of [] \<Rightarrow> []
      | c # cs \<Rightarrow> if list_ex (\<lambda>it. item_has cn it c) items \<noteq> neg
                  then [(Suc i, cs, caps)] else [])"
| "m cn Dot (i, rest, caps) =
     (case rest of [] \<Rightarrow> []
      | c # cs \<Rightarrow> if is_line_terminator c then [] else [(Suc i, cs, caps)])"
| "m cn (Seq r1 r2) x = concat (map (m cn r2) (m cn r1 x))"
| "m cn (Alt r1 r2) x = m cn r1 x @ m cn r2 x"
| "m cn (Rep mn mx greedy r) (i, rest, caps) =
     (if mx = Some 0 then [(i, rest, caps)]
      else if 0 < mn then
        concat (map (m cn (Rep (mn - 1) (dec_max mx) greedy r)) (m cn r (i, rest, caps)))
      else
        (let more = concat (map (m cn (Rep 0 (dec_max mx) greedy r))
                      (filter (\<lambda>(j, rest', caps'). length rest' < length rest)
                         (m cn r (i, rest, caps))))
         in if greedy then more @ [(i, rest, caps)] else (i, rest, caps) # more))"
| "m cn (Grp n r) (i, rest, caps) =
     map (\<lambda>(j, rest', caps'). (j, rest', caps'(n \<mapsto> take (j - i) rest)))
       (m cn r (i, rest, caps))"
| "m cn (Bref n) (i, rest, caps) =
     (case caps n of
        None \<Rightarrow> [(i, rest, caps)]
      | Some w \<Rightarrow>
          if length w \<le> length rest \<and> map cn (take (length w) rest) = map cn w
          then [(i + length w, drop (length w) rest, caps)] else [])"
| "m cn Bol (i, rest, caps) = (if i = 0 then [(i, rest, caps)] else [])"
| "m cn Eol (i, rest, caps) = (if rest = [] then [(i, rest, caps)] else [])"
| "m cn Eps x = [x]"
  by pat_completeness auto
termination
  by (relation "measures [\<lambda>(cn, r, x). rsize r,
                          \<lambda>(cn, r, x). (case r of Rep mn mx g r' \<Rightarrow> mn | _ \<Rightarrow> 0),
                          \<lambda>(cn, r, i, rest, caps). length rest]") auto

fun seqs :: "regex list \<Rightarrow> regex" where
  "seqs [] = Eps"
| "seqs [r] = r"
| "seqs (r # rs) = Seq r (seqs rs)"

definition lit :: "jstr \<Rightarrow> regex" where
  "lit s = seqs (map Chr s)"

definition ch :: "char \<Rightarrow> regex" where
  "ch c = Chr (of_char c)"

definition ci :: "char \<Rightarrow> citem" where
  "ci c = CUnit (of_char c)"

abbreviation star :: "regex \<Rightarrow> regex" where
  "star r \<equiv> Rep 0 None True r"

abbreviation plus :: "regex \<Rightarrow> regex" where
  "plus r \<equiv> Rep 1 None True r"

abbreviation opt :: "regex \<Rightarrow> regex" where
  "opt r \<equiv> Rep 0 (Some 1) True r"

text \<open>
  \<open>RegExp.prototype.exec\<close> for a pattern with the \<open>g\<close> flag: the search starts at
  \<open>lastIndex\<close> and tries each later index in turn, the end of the input included. The
  result is the index of the match, the index after it (the new \<open>lastIndex\<close>), the
  matched text (entry 0 of the match array) and the groups (entry n of the match array is
  the text of group n, undefined where the group took no part in the match).
\<close>

type_synonym jsmatch = "nat \<times> nat \<times> jstr \<times> caps"

fun exec_from :: "(cu \<Rightarrow> cu) \<Rightarrow> regex \<Rightarrow> nat \<Rightarrow> jstr \<Rightarrow> jsmatch option" where
  "exec_from cn r i rest =
     (case m cn r (i, rest, Map.empty) of
        (j, rest', caps) # _ \<Rightarrow> Some (i, j, take (j - i) rest, caps)
      | [] \<Rightarrow> (case rest of [] \<Rightarrow> None | c # cs \<Rightarrow> exec_from cn r (Suc i) cs))"

definition regex_exec :: "(cu \<Rightarrow> cu) \<Rightarrow> regex \<Rightarrow> jstr \<Rightarrow> nat \<Rightarrow> jsmatch option" where
  "regex_exec cn r content lastIndex =
     (if length content < lastIndex then None
      else exec_from cn r lastIndex (drop lastIndex content))"

section \<open>The download link patterns\<close>

datatype link_type = markdown | emoji_direct | bold_direct | keyword_direct

record pattern =
  regex :: regex
  ignoreCase :: bool
  textIndex :: "nat option"
  urlIndex :: nat
  ptype :: link_type
  defaultText :: "jstr option"
  ppriority :: nat

record link =
  ltext :: jstr
  url :: jstr
  ltype :: link_type
  fullMatch :: jstr
  priority :: nat

definition yukle :: jstr where
  "yukle = asc ''Y'' @ [252] @ asc ''kl'' @ [601]"

definition yukle_small :: jstr where
  "yukle_small = asc ''y'' @ [252] @ asc ''kl'' @ [601]"

definition yukleme :: jstr where
  "yukleme = asc ''y'' @ [252] @ asc ''kl'' @ [601] @ asc ''m'' @ [601]"

text \<open>The shared tail \<open>https?:\/\/[^...]+\<close> of the four patterns; \<open>stop\<close> is the negated class.\<close>

definition url_rx :: "citem list \<Rightarrow> regex" where
  "url_rx stop = seqs [lit (asc ''http''), opt (ch CHR ''s''), lit (asc ''://''),
                       plus (Cls True stop)]"

text \<open>\<^verbatim>\<open>/\[([^\]]+)\]\((https?:\/\/[^\)]+)\)/g\<close>\<close>

definition rx_markdown :: regex where
  "rx_markdown = seqs [ch CHR ''['', Grp 1 (plus (Cls True [ci CHR '']''])), ch CHR '']'',
                       ch CHR ''('', Grp 2 (url_rx [ci CHR '')'']), ch CHR '')'']"

text \<open>\<^verbatim>\<open>/(emoji)[^:]*:?[\s]*(https?:\/\/[^\s\n]+)/gi\<close>\<close>

definition rx_emoji :: regex where
  "rx_emoji = seqs [Chr 55357, Chr 56549, star (Cls True [ci CHR '':'']), opt (ch CHR '':''),
                    star (Cls False [CSpace]), Grp 1 (url_rx [CSpace, CUnit 10])]"

text \<open>\<^verbatim>\<open>/\*\*[^*]*yukleme[^*]*linki[^*]*\*\*[\s]*:?[\s]*(https?:\/\/[^\s\n]+)/gi\<close>\<close>

definition rx_bold :: regex where
  "rx_bold = seqs [ch CHR ''*'', ch CHR ''*'', star (Cls True [ci CHR ''*'']), lit yukleme,
                   star (Cls True [ci CHR ''*'']), lit (asc ''linki''),
                   star (Cls True [ci CHR ''*'']), ch CHR ''*'', ch CHR ''*'',
                   star (Cls False [CSpace]), opt (ch CHR '':''), star (Cls False [CSpace]),
                   Grp 1 (url_rx [CSpace, CUnit 10])]"

text \<open>\<^verbatim>\<open>/(yukleme linki|download link|yukle)[\s]*:?[\s]*(https?:\/\/[^\s\n]+)/gi\<close>\<close>

definition rx_keyword :: regex where
  "rx_keyword = seqs [Grp 1 (Alt (lit (yukleme @ asc '' linki''))
                              (Alt (lit (asc ''download link'')) (lit yukle_small))),
                      star (Cls False [CSpace]), opt (ch CHR '':''), star (Cls False [CSpace]),
                      Grp 2 (url_rx [CSpace, CUnit 10])]"

definition DOWNLOAD_LINK_PATTERNS :: "pattern list" where
  "DOWNLOAD_LINK_PATTERNS =
     [\<lparr>regex = rx_markdown, ignoreCase = False, textIndex = Some 1, urlIndex = 2,
       ptype = markdown, defaultText = None, ppriority = 1\<rparr>,
      \<lparr>regex = rx_emoji, ignoreCase = True, textIndex = None, urlIndex = 1,
       ptype = emoji_direct, defaultText = Some yukle, ppriority = 2\<rparr>,
      \<lparr>regex = rx_bold, ignoreCase = True, textIndex = None, urlIndex = 1,
       ptype = bold_direct, defaultText = Some (yukle @ asc ''m'' @ [601] @ asc '' linki''),
       ppriority = 3\<rparr>,
      \<lparr>regex = rx_keyword, ignoreCase = True, textIndex = Some 1, urlIndex = 2,
       ptype = keyword_direct, defaultText = None, ppriority = 4\<rparr>]"

section \<open>parseDownloadLinks\<close>

datatype error = TypeError | Error jstr

text \<open>
  What a thrown object carries: the \<open>name\<close> it inherits from its constructor, and, for
  \<open>new Error(message)\<close>, the message. No error of the program has any other property.
\<close>

fun error_name :: "error \<Rightarrow> jstr" where
  "error_name TypeError = asc ''TypeError''"
| "error_name (Error msg) = asc ''Error''"

type_synonym pstate = "link list \<times> jstr set"

text \<open>\<open>x || 99\<close> on a number: zero is falsy.\<close>

definition or99 :: "nat \<Rightarrow> nat" where
  "or99 n = (if n = 0 then 99 else n)"

text \<open>The canonicalisation a pattern matches with: the runtime's case folding \<open>cz\<close> under
  the \<open>i\<close> flag, the identity without it.\<close>

definition flag_cn :: "(cu \<Rightarrow> cu) \<Rightarrow> pattern \<Rightarrow> cu \<Rightarrow> cu" where
  "flag_cn cz p = (if ignoreCase p then cz else id)"

text \<open>
  The body of the \<open>while\<close> loop for one match (\<open>whole\<close> is \<open>match[0]\<close>,
  \<open>g n\<close> is \<open>match[n]\<close>): both \<open>continue\<close> branches
  leave the state as it is; reading \<open>.trim()\<close> of a group that took no part in the match
  would throw a TypeError.
\<close>

definition link_text :: "pattern \<Rightarrow> caps \<Rightarrow> error + jstr" where
  "link_text p g =
     (case textIndex p of
        Some k \<Rightarrow> (case g k of None \<Rightarrow> Inl TypeError | Some t \<Rightarrow> Inr (trim t))
      | None \<Rightarrow> Inr (case defaultText p of
                       None \<Rightarrow> yukle
                     | Some d \<Rightarrow> if d = [] then yukle else d))"

definition process_match :: "pattern \<Rightarrow> jstr \<Rightarrow> caps \<Rightarrow> pstate \<Rightarrow> error + pstate" where
  "process_match p whole g st =
     (case st of (links, processedUrls) \<Rightarrow>
        (case g (urlIndex p) of
           None \<Rightarrow> Inr st
         | Some u \<Rightarrow>
             if u \<in> processedUrls then Inr st
             else if u = [] \<or> \<not> prefix (asc ''http'') u then Inr st
             else (case link_text p g of
                     Inl e \<Rightarrow> Inl e
                   | Inr t \<Rightarrow>
                       Inr (links @ [\<lparr>ltext = t, url = trim u, ltype = ptype p,
                                      fullMatch = whole, priority = or99 (ppriority p)\<rparr>],
                            insert u processedUrls))))"

text \<open>
  The \<open>while ((match = regex.exec(content)) !== null)\<close> loop of one pattern. Nothing in the
  loop itself forces progress: \<open>exec\<close> leaves \<open>lastIndex\<close> where it was after an empty
  match, so the loop is a partial function and \<open>None\<close> stands for a run that never ends.
\<close>

partial_function (option) scan_loop ::
  "(cu \<Rightarrow> cu) \<Rightarrow> pattern \<Rightarrow> jstr \<Rightarrow> nat \<Rightarrow> pstate \<Rightarrow> (error + pstate) option" where
  "scan_loop cz p content lastIndex st =
     (case regex_exec (flag_cn cz p) (regex p) content lastIndex of
        None \<Rightarrow> Some (Inr st)
      | Some (s, e, whole, g) \<Rightarrow>
          (case process_match p whole g st of
             Inl err \<Rightarrow> Some (Inl err)
           | Inr st' \<Rightarrow> scan_loop cz p content e st'))"

fun scan_patterns ::
  "(cu \<Rightarrow> cu) \<Rightarrow> pattern list \<Rightarrow> jstr \<Rightarrow> pstate \<Rightarrow> (error + pstate) option" where
  "scan_patterns cz [] content st = Some (Inr st)"
| "scan_patterns cz (p # ps) content st =
     (case scan_loop cz p content 0 st of
        None \<Rightarrow> None
      | Some (Inl e) \<Rightarrow> Some (Inl e)
      | Some (Inr st') \<Rightarrow> scan_patterns cz ps content st')"

text \<open>The links in the order of discovery, before the final sort.\<close>

definition discoverLinks :: "(cu \<Rightarrow> cu) \<Rightarrow> jstr \<Rightarrow> (error + pstate) option" where
  "discoverLinks cz content =
     scan_patterns cz (sort_key (\<lambda>p. or99 (ppriority p)) DOWNLOAD_LINK_PATTERNS) content ([], {})"

definition parseDownloadLinks :: "(cu \<Rightarrow> cu) \<Rightarrow> jstr \<Rightarrow> (error + link list) option" where
  "parseDownloadLinks cz content =
     (case discoverLinks cz content of
        None \<Rightarrow> None
      | Some (Inl e) \<Rightarrow> Some (Inl e)
      | Some (Inr (links, processedUrls)) \<Rightarrow> Some (Inr (sort_key priority links)))"


section \<open>String replacement\<close>

text \<open>
  \<open>s.replace(/r/g, rep)\<close>: every match found by repeated \<open>exec\<close> is replaced; the text
  between matches is copied; after an empty match the search moves on by one code unit.
  The replacement strings of the program contain no \<open>$\<close>, so they are inserted as they are.
\<close>

function replace_from :: "(cu \<Rightarrow> cu) \<Rightarrow> regex \<Rightarrow> jstr \<Rightarrow> nat \<Rightarrow> jstr \<Rightarrow> jstr" where
  "replace_from cn r rep i rest =
     (case m cn r (i, rest, Map.empty) of
        [] \<Rightarrow> (case rest of [] \<Rightarrow> [] | c # cs \<Rightarrow> c # replace_from cn r rep (Suc i) cs)
      | y # _ \<Rightarrow>
          if length (fst (snd y)) < length rest
          then rep @ replace_from cn r rep (fst y) (fst (snd y))
          else rep @ (case rest of [] \<Rightarrow> []
                      | c # cs \<Rightarrow> c # replace_from cn r rep (Suc i) cs))"
  by pat_completeness auto
termination
  by (relation "measure (\<lambda>(cn, r, rep, i, rest). length rest)") auto

definition replace_all :: "(cu \<Rightarrow> cu) \<Rightarrow> regex \<Rightarrow> jstr \<Rightarrow> jstr \<Rightarrow> jstr" where
  "replace_all cn r rep s = replace_from cn r rep 0 s"

text \<open>\<open>s.replace(pat, rep)\<close> with a string pattern: the first occurrence only.\<close>

fun replace_first :: "jstr \<Rightarrow> jstr \<Rightarrow> jstr \<Rightarrow> jstr" where
  "replace_first pat rep [] = (if pat = [] then rep else [])"
| "replace_first pat rep (c # cs) =
     (if prefix pat (c # cs) then rep @ drop (length pat) (c # cs)
      else c # replace_first pat rep cs)"

section \<open>removeDownloadLinks\<close>

text \<open>\<^verbatim>\<open>/\n{3,}/g\<close> and \<^verbatim>\<open>/\s{2,}/g\<close>\<close>

definition rx_newlines :: regex where
  "rx_newlines = Rep 3 None True (Chr 10)"

definition rx_spaces :: regex where
  "rx_spaces = Rep 2 None True (Cls False [CSpace])"

definition strip_link :: "link \<Rightarrow> jstr \<Rightarrow> jstr" where
  "strip_link l cleanContent =
     (if fullMatch l \<noteq> [] then replace_first (fullMatch l) [] cleanContent else cleanContent)"

definition removeDownloadLinks :: "jstr \<Rightarrow> link list \<Rightarrow> jstr" where
  "removeDownloadLinks content links =
     trim (replace_all id rx_spaces (asc '' '')
            (replace_all id rx_newlines [10, 10] (fold strip_link links content)))"

section \<open>generateFilename\<close>

text \<open>
  \<^verbatim>\<open>/[^a-z0-9...\s]/g\<close> with the seven letters schwa, dotless i, o-umlaut, u-umlaut,
  c-cedilla, s-cedilla and g-breve; then \<^verbatim>\<open>/\s+/g\<close>, \<^verbatim>\<open>/_{2,}/g\<close> and \<^verbatim>\<open>/^_|_$/g\<close>.
\<close>

definition rx_unsafe :: regex where
  "rx_unsafe = Cls True [CRange 97 122, CRange 48 57, CUnit 601, CUnit 305, CUnit 246,
                         CUnit 252, CUnit 231, CUnit 351, CUnit 287, CSpace]"

definition rx_space_run :: regex where
  "rx_space_run = plus (Cls False [CSpace])"

definition rx_underscores :: regex where
  "rx_underscores = Rep 2 None True (ch CHR ''_'')"

definition rx_edge_underscore :: regex where
  "rx_edge_underscore = Alt (Seq Bol (ch CHR ''_'')) (Seq (ch CHR ''_'') Eol)"

text \<open>
  \<open>toLowerCase\<close> is the runtime's \<open>String.prototype.toLowerCase\<close>; the extension is
  \<open>None\<close> where the caller leaves the argument out, and then defaults to \<open>docx\<close>.
\<close>

definition cleanName :: "(jstr \<Rightarrow> jstr) \<Rightarrow> jstr \<Rightarrow> jstr" where
  "cleanName toLowerCase templateName =
     replace_all id rx_edge_underscore []
       (replace_all id rx_underscores (asc ''_'')
         (replace_all id rx_space_run (asc ''_'')
           (replace_all id rx_unsafe [] (toLowerCase templateName))))"

definition generateFilename :: "(jstr \<Rightarrow> jstr) \<Rightarrow> jstr \<Rightarrow> jstr option \<Rightarrow> jstr" where
  "generateFilename toLowerCase templateName extension =
     (let name = cleanName toLowerCase templateName
      in (if name = [] then asc ''template'' else name) @ asc ''.'' @
         (case extension of None \<Rightarrow> asc ''docx'' | Some ext \<Rightarrow> ext))"

section \<open>downloadFromUrl\<close>

text \<open>
  What the function sees of the network: \<open>fetch\<close> either rejects with an error message or
  resolves to a response; reading the body as a blob either rejects or yields the bytes.
  \<open>pathname\<close> is \<open>new URL(url).pathname\<close>, which throws on a string that is no URL.
\<close>

record response =
  ok :: bool
  status :: nat
  statusText :: jstr
  contentDisposition :: "jstr option"
  blob :: "jstr + nat list"

datatype fetched = Rejected jstr | Resolved response

record env =
  fetch :: "jstr \<Rightarrow> fetched"
  pathname :: "jstr \<Rightarrow> jstr + jstr"

text \<open>
  The effects, in order: the request, the click on the temporary link that saves the blob
  under a file name, the clean-up scheduled after it, and (in the chat view only) the toast
  shown to the user.
\<close>

datatype event = Fetched jstr | Saved "nat list" jstr | CleanupScheduled
  | ToastSuccess jstr | ToastError jstr

function show_nat :: "nat \<Rightarrow> jstr" where
  "show_nat n = (if n < 10 then [48 + n] else show_nat (n div 10) @ [48 + n mod 10])"
  by pat_completeness auto
termination
  by (relation "measure id") auto

fun split_on :: "cu \<Rightarrow> jstr \<Rightarrow> jstr list" where
  "split_on sep [] = [[]]"
| "split_on sep (c # cs) =
     (if c = sep then [] # split_on sep cs
      else (case split_on sep cs of [] \<Rightarrow> [[c]] | x # xs \<Rightarrow> (c # x) # xs))"

text \<open>\<^verbatim>\<open>/filename[^;=\n]*=((['"]).*?\2|[^;\n]*)/\<close> and \<^verbatim>\<open>/['"]/g\<close>\<close>

definition rx_disposition :: regex where
  "rx_disposition =
     seqs [lit (asc ''filename''), star (Cls True [ci CHR '';'', ci CHR ''='', CUnit 10]),
           ch CHR ''='',
           Grp 1 (Alt (seqs [Grp 2 (Cls False [CUnit 39, CUnit 34]), Rep 0 None False Dot, Bref 2])
                      (star (Cls True [ci CHR '';'', CUnit 10])))]"

definition rx_quote :: regex where
  "rx_quote = Cls False [CUnit 39, CUnit 34]"

text \<open>A string value is truthy when it is neither \<open>null\<close> nor empty.\<close>

fun truthy :: "jstr option \<Rightarrow> jstr option" where
  "truthy None = None"
| "truthy (Some v) = (if v = [] then None else Some v)"

text \<open>
  \<open>match[1]\<close> of the \<open>Content-Disposition\<close> header, where the pattern matches and the group
  is not empty; then the file name taken from the header, with every quote removed.
\<close>

definition disposition_token :: "jstr \<Rightarrow> jstr option" where
  "disposition_token header =
     (case regex_exec id rx_disposition header 0 of
        None \<Rightarrow> None
      | Some (s, e, whole, g) \<Rightarrow> truthy (g 1))"

definition disposition_filename :: "jstr option \<Rightarrow> jstr option" where
  "disposition_filename headerValue =
     (case truthy headerValue of
        None \<Rightarrow> None
      | Some header \<Rightarrow>
          (case disposition_token header of
             None \<Rightarrow> None
           | Some v \<Rightarrow> Some (replace_all id rx_quote [] v)))"

definition url_filename :: "jstr \<Rightarrow> jstr" where
  "url_filename urlPath =
     (let seg = last (split_on 47 urlPath) in if seg = [] then asc ''download'' else seg)"

definition ensure_extension :: "jstr \<Rightarrow> jstr" where
  "ensure_extension filename =
     (if 46 \<in> set filename then filename else filename @ asc ''.docx'')"

text \<open>The message of the error thrown again by the \<open>catch\<close> block.\<close>

definition wrap_error :: "jstr \<Rightarrow> error" where
  "wrap_error msg = Error (yukle @ asc ''m'' @ [601] @ asc '' x'' @ [601] @ asc ''tas'' @ [305]
                            @ asc '': '' @ msg)"

definition resolve_filename :: "env \<Rightarrow> response \<Rightarrow> jstr \<Rightarrow> jstr option \<Rightarrow> jstr + jstr" where
  "resolve_filename e response u filename =
     (case truthy filename of
        Some given \<Rightarrow> Inr (ensure_extension given)
      | None \<Rightarrow>
          (case truthy (disposition_filename (contentDisposition response)) of
             Some fromHeader \<Rightarrow> Inr (ensure_extension fromHeader)
           | None \<Rightarrow>
               (case pathname e u of
                  Inl msg \<Rightarrow> Inl msg
                | Inr urlPath \<Rightarrow> Inr (ensure_extension (url_filename urlPath)))))"

definition downloadFromUrl :: "env \<Rightarrow> jstr \<Rightarrow> jstr option \<Rightarrow> event list \<times> (error + bool)" where
  "downloadFromUrl e u filename =
     (case fetch e u of
        Rejected msg \<Rightarrow> ([Fetched u], Inl (wrap_error msg))
      | Resolved response \<Rightarrow>
          if \<not> ok response
          then ([Fetched u],
                Inl (wrap_error (asc ''Download failed: '' @ show_nat (status response)
                                 @ asc '' '' @ statusText response)))
          else (case blob response of
                  Inl msg \<Rightarrow> ([Fetched u], Inl (wrap_error msg))
                | Inr bytes \<Rightarrow>
                    (case resolve_filename e response u filename of
                       Inl msg \<Rightarrow> ([Fetched u], Inl (wrap_error msg))
                     | Inr name \<Rightarrow>
                         ([Fetched u, Saved bytes name, CleanupScheduled], Inr True))))"

section \<open>handleDownloadFromLink\<close>

text \<open>
  The download handler of the chat view. It checks the size of the blob, and it catches every
  error and shows it as a toast: its promise always resolves, so it returns effects only.
\<close>

definition error_prefix :: jstr where
  "error_prefix = yukle @ asc ''m'' @ [601] @ asc '' x'' @ [601] @ asc ''tas'' @ [305] @ asc '': ''"

definition empty_file_message :: jstr where
  "empty_file_message = asc ''Bo'' @ [351] @ asc '' fayl al'' @ [305] @ asc ''nd'' @ [305]"

definition handleDownloadFromLink :: "env \<Rightarrow> jstr \<Rightarrow> jstr option \<Rightarrow> event list" where
  "handleDownloadFromLink e u filename =
     (case fetch e u of
        Rejected msg \<Rightarrow> [Fetched u, ToastError (error_prefix @ msg)]
      | Resolved response \<Rightarrow>
          if \<not> ok response
          then [Fetched u,
                ToastError (error_prefix @ asc ''Download failed: '' @ show_nat (status response)
                            @ asc '' '' @ statusText response)]
          else (case blob response of
                  Inl msg \<Rightarrow> [Fetched u, ToastError (error_prefix @ msg)]
                | Inr bytes \<Rightarrow>
                    if length bytes = 0
                    then [Fetched u, ToastError (error_prefix @ empty_file_message)]
                    else
                      (let given = (case filename of None \<Rightarrow> asc ''template'' | Some f \<Rightarrow> f);
                           name = (case truthy (contentDisposition response) of
                                     None \<Rightarrow> given
                                   | Some header \<Rightarrow>
                                       if sublist (asc ''filename='') header
                                       then (case disposition_token header of
                                               None \<Rightarrow> given
                                             | Some v \<Rightarrow> replace_all id rx_quote [] v)
                                       else given)
                       in [Fetched u, Saved bytes name, CleanupScheduled,
                           ToastSuccess (asc ''Fayl y'' @ [252] @ asc ''kl'' @ [601] @ asc ''ndi'')])))"

section \<open>parseDownloadLinks of the chat view\<close>

text \<open>
  The chat view has its own, simpler copy of the parser: three patterns, no validation of the
  URL, no set of processed URLs, no priorities. \<open>new RegExp(pattern)\<close> keeps the source and
  the flags of the literal. The patterns are
  \<^verbatim>\<open>/\[([^\]]+)\]\((http[s]?:\/\/[^\)]+)\)/g\<close>,
  \<^verbatim>\<open>/\*\*[^*]*yukleme[^*]*linki[^*]*\*\*[:\s]*([http][^\s\n]+)/gi\<close> and
  \<^verbatim>\<open>/(emoji)[^:]*:[:\s]*([http][^\s\n]+)/gi\<close>.
\<close>

datatype dashboard_type = dashboard_markdown | dashboard_direct

record dashboard_link =
  dtext :: "jstr option"
  durl :: jstr
  dfullMatch :: jstr
  dtype :: dashboard_type

definition rx_dashboard_markdown :: regex where
  "rx_dashboard_markdown =
     seqs [ch CHR ''['', Grp 1 (plus (Cls True [ci CHR '']''])), ch CHR '']'', ch CHR ''('',
           Grp 2 (seqs [lit (asc ''http''), opt (Cls False [ci CHR ''s'']), lit (asc ''://''),
                        plus (Cls True [ci CHR '')''])]),
           ch CHR '')'']"

definition rx_dashboard_bold :: regex where
  "rx_dashboard_bold =
     seqs [ch CHR ''*'', ch CHR ''*'', star (Cls True [ci CHR ''*'']), lit yukleme,
           star (Cls True [ci CHR ''*'']), lit (asc ''linki''),
           star (Cls True [ci CHR ''*'']), ch CHR ''*'', ch CHR ''*'',
           star (Cls False [ci CHR '':'', CSpace]),
           Grp 1 (seqs [Cls False [ci CHR ''h'', ci CHR ''t'', ci CHR ''t'', ci CHR ''p''],
                        plus (Cls True [CSpace, CUnit 10])])]"

definition rx_dashboard_emoji :: regex where
  "rx_dashboard_emoji =
     seqs [Chr 55357, Chr 56549, star (Cls True [ci CHR '':'']), ch CHR '':'',
           star (Cls False [ci CHR '':'', CSpace]),
           Grp 1 (seqs [Cls False [ci CHR ''h'', ci CHR ''t'', ci CHR ''t'', ci CHR ''p''],
                        plus (Cls True [CSpace, CUnit 10])])]"

text \<open>The patterns with their \<open>i\<close> flag.\<close>

definition dashboard_patterns :: "(regex \<times> bool) list" where
  "dashboard_patterns =
     [(rx_dashboard_markdown, False), (rx_dashboard_bold, True), (rx_dashboard_emoji, True)]"

definition dashboard_match :: "jstr \<Rightarrow> caps \<Rightarrow> dashboard_link list \<Rightarrow> dashboard_link list" where
  "dashboard_match whole g links =
     (case truthy (g 2) of
        Some u \<Rightarrow> links @ [\<lparr>dtext = g 1, durl = u, dfullMatch = whole, dtype = dashboard_markdown\<rparr>]
      | None \<Rightarrow>
          (case truthy (g 1) of
             Some u \<Rightarrow> links @ [\<lparr>dtext = Some yukle, durl = u, dfullMatch = whole,
                                   dtype = dashboard_direct\<rparr>]
           | None \<Rightarrow> links))"

partial_function (option) dashboard_loop ::
  "(cu \<Rightarrow> cu) \<Rightarrow> regex \<Rightarrow> jstr \<Rightarrow> nat \<Rightarrow> dashboard_link list \<Rightarrow> dashboard_link list option" where
  "dashboard_loop cn r content lastIndex links =
     (case regex_exec cn r content lastIndex of
        None \<Rightarrow> Some links
      | Some (s, e, whole, g) \<Rightarrow> dashboard_loop cn r content e (dashboard_match whole g links))"

fun dashboard_scan ::
  "(cu \<Rightarrow> cu) \<Rightarrow> (regex \<times> bool) list \<Rightarrow> jstr \<Rightarrow> dashboard_link list \<Rightarrow> dashboard_link list option" where
  "dashboard_scan cz [] content links = Some links"
| "dashboard_scan cz ((r, i) # ps) content links =
     (case dashboard_loop (if i then cz else id) r content 0 links of
        None \<Rightarrow> None
      | Some links' \<Rightarrow> dashboard_scan cz ps content links')"

definition parseDownloadLinks_dashboard :: "(cu \<Rightarrow> cu) \<Rightarrow> jstr \<Rightarrow> dashboard_link list option" where
  "parseDownloadLinks_dashboard cz content = dashboard_scan cz dashboard_patterns content []"


section \<open>Notions used in the statements and proofs\<close>

text \<open>\<open>reaches x y\<close>: state \<open>y\<close> lies ahead of state \<open>x\<close> on the same input.\<close>

definition reaches :: "mstate \<Rightarrow> mstate \<Rightarrow> bool" where
  "reaches x y = (\<exists>w. fst (snd x) = w @ fst (snd y) \<and> fst y = fst x + length w)"

text \<open>A syntactic criterion: an expression that cannot match the empty string.\<close>

fun nonempty :: "regex \<Rightarrow> bool" where
  "nonempty (Chr a) = True"
| "nonempty (Cls neg items) = True"
| "nonempty Dot = True"
| "nonempty (Seq a b) = (nonempty a \<or> nonempty b)"
| "nonempty (Alt a b) = (nonempty a \<and> nonempty b)"
| "nonempty (Rep mn mx g r) = (0 < mn \<and> mx \<noteq> Some 0 \<and> nonempty r)"
| "nonempty (Grp n r) = nonempty r"
| "nonempty _ = False"

text \<open>Single-unit expressions and the code units they accept.\<close>

fun accepts :: "(cu \<Rightarrow> cu) \<Rightarrow> regex \<Rightarrow> cu \<Rightarrow> bool" where
  "accepts cn (Chr a) c = (cn c = cn a)"
| "accepts cn (Cls neg items) c = (list_ex (\<lambda>it. item_has cn it c) items \<noteq> neg)"
| "accepts cn Dot c = (\<not> is_line_terminator c)"
| "accepts cn _ c = False"

fun single :: "regex \<Rightarrow> bool" where
  "single (Chr a) = True"
| "single (Cls neg items) = True"
| "single Dot = True"
| "single _ = False"

text \<open>
  \<open>collapse_runs P k rep s\<close> reads \<open>s\<close> from the left and replaces every maximal run of
  \<open>k\<close> or more units satisfying \<open>P\<close> by \<open>rep\<close>.
\<close>

function collapse_runs :: "(cu \<Rightarrow> bool) \<Rightarrow> nat \<Rightarrow> jstr \<Rightarrow> jstr \<Rightarrow> jstr" where
  "collapse_runs P k rep [] = []"
| "collapse_runs P k rep (c # cs) =
     (if 0 < k \<and> k \<le> length (takeWhile P (c # cs))
      then rep @ collapse_runs P k rep (dropWhile P (c # cs))
      else c # collapse_runs P k rep cs)"
  by pat_completeness auto
termination
  by (relation "measure (\<lambda>(P, k, rep, s). length s)")
     (auto simp: length_dropWhile_le le_imp_less_Suc split: if_splits)

text \<open>Two neighbouring units that both satisfy \<open>P\<close>.\<close>

fun adjacent :: "('a \<Rightarrow> bool) \<Rightarrow> 'a list \<Rightarrow> bool" where
  "adjacent P (a # b # xs) = ((P a \<and> P b) \<or> adjacent P (b # xs))"
| "adjacent P _ = False"

text \<open>The units a cleaned name may contain besides the underscore.\<close>

definition name_char :: "cu \<Rightarrow> bool" where
  "name_char c = ((97 \<le> c \<and> c \<le> 122) \<or> (48 \<le> c \<and> c \<le> 57)
                  \<or> c \<in> set [601, 305, 246, 252, 231, 351, 287])"

text \<open>One underscore less at the front and one less at the end.\<close>

definition strip_edges :: "jstr \<Rightarrow> jstr" where
  "strip_edges s =
     (let t = (case s of [] \<Rightarrow> [] | c # cs \<Rightarrow> if c = 95 then cs else s)
      in if t \<noteq> [] \<and> last t = 95 then butlast t else t)"

text \<open>The requests among the effects.\<close>

fun is_fetch :: "event \<Rightarrow> bool" where
  "is_fetch (Fetched u) = True"
| "is_fetch _ = False"

fun is_save :: "event \<Rightarrow> bool" where
  "is_save (Saved bytes name) = True"
| "is_save _ = False"

text \<open>A server that answers every request with the given response, and the usual path of a URL.\<close>

definition serving :: "response \<Rightarrow> env" where
  "serving r = \<lparr>fetch = (\<lambda>u. Resolved r), pathname = (\<lambda>u. Inr (asc ''/files/a.docx''))\<rparr>"

text \<open>
  Stripping the surrounding quotes, as the description of the file name resolution words it:
  a value that begins and ends with the same quote loses that pair and nothing else.
\<close>

definition strip_surrounding_quotes :: "jstr \<Rightarrow> jstr" where
  "strip_surrounding_quotes v =
     (case v of
        [] \<Rightarrow> []
      | q # rest \<Rightarrow>
          if (q = 34 \<or> q = 39) \<and> rest \<noteq> [] \<and> last rest = q then butlast rest else v)"

definition remove_quotes :: "jstr \<Rightarrow> jstr" where
  "remove_quotes v = filter (\<lambda>c. c \<noteq> 39 \<and> c \<noteq> 34) v"

text \<open>The text after the last separator.\<close>

definition last_segment :: "cu \<Rightarrow> jstr \<Rightarrow> jstr" where
  "last_segment sep s = rev (takeWhile (\<lambda>c. c \<noteq> sep) (rev s))"

definition header_report :: jstr where
  "header_report = asc ''attachment; filename='' @ [34] @ asc ''report.pdf'' @ [34]"

definition header_apostrophe :: jstr where
  "header_apostrophe = asc ''attachment; filename='' @ [34] @ asc ''it'' @ [39] @ asc ''s.pdf'' @ [34]"

text \<open>
  The runtime's \<open>toLowerCase\<close> on the Basic Latin and Latin-1 blocks and on the capital
  letters of the Azerbaijani alphabet outside them (capital schwa, g-breve, s-cedilla, and
  dotted capital I, which becomes \<open>i\<close> and a combining dot). It serves the concrete
  examples; the general statements hold for every function in its place.
\<close>

definition toLowerCase_unit :: "cu \<Rightarrow> jstr" where
  "toLowerCase_unit c =
     (if 65 \<le> c \<and> c \<le> 90 then [c + 32]
      else if 192 \<le> c \<and> c \<le> 222 \<and> c \<noteq> 215 then [c + 32]
      else if c = 399 then [601]
      else if c = 286 then [287]
      else if c = 350 then [351]
      else if c = 304 then [105, 775]
      else [c])"

definition toLowerCase_az :: "jstr \<Rightarrow> jstr" where
  "toLowerCase_az s = concat (map toLowerCase_unit s)"

definition label_vacation :: jstr where
  "label_vacation = asc ''Mezuniyyet '' @ [399] @ asc ''rizesi''"

text \<open>A syntactic criterion: every match of the expression gives group \<open>n\<close> a value.\<close>

fun binds :: "regex \<Rightarrow> nat \<Rightarrow> bool" where
  "binds (Grp k r) n = (k = n \<or> binds r n)"
| "binds (Seq a b) n = (binds a n \<or> binds b n)"
| "binds (Alt a b) n = (binds a n \<and> binds b n)"
| "binds (Rep mn mx g r) n = (0 < mn \<and> mx \<noteq> Some 0 \<and> binds r n)"
| "binds _ n = False"

text \<open>
  The shape of an http(s) URL: \<open>http://\<close> or \<open>https://\<close>, compared through the
  canonicalisation \<open>cn\<close> (so in either case where \<open>cn\<close> folds case), at the front of a
  string and anywhere in it.
\<close>

definition ci_prefix :: "(cu \<Rightarrow> cu) \<Rightarrow> jstr \<Rightarrow> jstr \<Rightarrow> bool" where
  "ci_prefix cn p s = (length p \<le> length s \<and> map cn (take (length p) s) = map cn p)"

definition url_shape_at :: "(cu \<Rightarrow> cu) \<Rightarrow> jstr \<Rightarrow> bool" where
  "url_shape_at cn s = (ci_prefix cn (asc ''http://'') s \<or> ci_prefix cn (asc ''https://'') s)"

fun has_url_shape :: "(cu \<Rightarrow> cu) \<Rightarrow> jstr \<Rightarrow> bool" where
  "has_url_shape cn [] = False"
| "has_url_shape cn (c # cs) = (url_shape_at cn (c # cs) \<or> has_url_shape cn cs)"

text \<open>
  The runtime's canonicalisation under the \<open>i\<close> flag (the upper-case mapping of a single
  code unit) on the Basic Latin and Latin-1 blocks and on the schwa. It serves the concrete
  examples; the general statements hold for every function in its place.
\<close>

definition canonicalize :: "cu \<Rightarrow> cu" where
  "canonicalize c =
     (if 97 \<le> c \<and> c \<le> 122 then c - 32
      else if 224 \<le> c \<and> c \<le> 254 \<and> c \<noteq> 247 then c - 32
      else if c = 255 then 376
      else if c = 181 then 924
      else if c = 601 then 399
      else c)"

definition text_two_links :: jstr where
  "text_two_links = [55357, 56549] @ asc '' '' @ yukle @
     asc '': https://x.test/a.docx and [Click](https://x.test/b.docx)''"

definition text_trailing_space :: jstr where
  "text_trailing_space = asc ''[a](https://x.test/a.docx) [b](https://x.test/a.docx )''"

definition text_repeated :: jstr where
  "text_repeated = asc ''[a](https://x.test/a.docx) [b](https://x.test/a.docx)''"

text \<open>\<open>leads cn r\<close>: wherever \<open>r\<close> matches, the input from there on contains the shape of a URL.\<close>

definition leads :: "(cu \<Rightarrow> cu) \<Rightarrow> regex \<Rightarrow> bool" where
  "leads cn r = (\<forall>x y. y \<in> set (m cn r x) \<longrightarrow> has_url_shape cn (fst (snd x)))"

text \<open>
  What holds of the links found so far while the patterns are scanned: they are in ascending
  order of priority, none above the bound \<open>b\<close>; each URL is not empty and begins with
  \<open>http\<close>; each full match is a non-empty piece of the text.
\<close>

definition links_ok :: "jstr \<Rightarrow> nat \<Rightarrow> link list \<Rightarrow> bool" where
  "links_ok content b links =
     (sorted (map priority links) \<and>
      (\<forall>l\<in>set links. priority l \<le> b \<and> url l \<noteq> [] \<and> prefix (asc ''http'') (url l) \<and>
                       fullMatch l \<noteq> [] \<and> sublist (fullMatch l) content))"


text \<open>
  A pattern outside the program's set, \<^verbatim>\<open>/(?:)/g\<close>, which matches the empty string
  everywhere: the scan loop does not end on it.
\<close>

definition empty_pattern :: pattern where
  "empty_pattern = \<lparr>regex = Eps, ignoreCase = False, textIndex = None, urlIndex = 1,
                     ptype = markdown, defaultText = None, ppriority = 1\<rparr>"

text \<open>Reading a decimal numeral back.\<close>

definition read_nat :: "jstr \<Rightarrow> nat" where
  "read_nat s = foldl (\<lambda>a d. 10 * a + (d - 48)) 0 s"

definition is_digit :: "cu \<Rightarrow> bool" where
  "is_digit d = (48 \<le> d \<and> d \<le> 57)"

definition response_404 :: response where
  "response_404 = \<lparr>ok = False, status = 404, statusText = asc ''Not Found'',
                    contentDisposition = None, blob = Inr []\<rparr>"

text \<open>
  The file name a \<open>Content-Disposition\<close> header yields, in plain words. The header is read
  from the left for the first place where the text \<open>filename\<close> is followed, after any units
  other than \<open>;\<close>, \<open>=\<close> and newline, by \<open>=\<close>; that place need not begin a parameter of
  its own. The value after the \<open>=\<close> is, where it begins with a quote that is closed again
  before any line terminator, the text from the quote to the closing quote; otherwise it is
  the text up to the next \<open>;\<close> or newline. An empty value counts as no name.
\<close>

fun closing :: "cu \<Rightarrow> jstr \<Rightarrow> jstr option" where
  "closing q [] = None"
| "closing q (c # cs) =
     (if c = q then Some []
      else if is_line_terminator c then None
      else map_option ((#) c) (closing q cs))"

definition header_value :: "jstr \<Rightarrow> jstr" where
  "header_value v =
     (case v of
        [] \<Rightarrow> []
      | q # w \<Rightarrow>
          (case (if q = 39 \<or> q = 34 then closing q w else None) of
             Some mid \<Rightarrow> q # mid @ [q]
           | None \<Rightarrow> takeWhile (\<lambda>c. c \<noteq> 59 \<and> c \<noteq> 10) v))"

definition name_unit :: "cu \<Rightarrow> bool" where
  "name_unit c = (c \<noteq> 59 \<and> c \<noteq> 61 \<and> c \<noteq> 10)"

fun header_token :: "jstr \<Rightarrow> jstr option" where
  "header_token [] = None"
| "header_token (c # cs) =
     (if prefix (asc ''filename'') (c # cs)
      then (case dropWhile name_unit (drop 8 (c # cs)) of
              [] \<Rightarrow> header_token cs
            | d # v \<Rightarrow> if d = 61 then truthy (Some (header_value v)) else header_token cs)
      else header_token cs)"

text \<open>The name the download is saved under, where the response is ok and its body was read.\<close>

definition chosen_name :: "jstr option \<Rightarrow> jstr option \<Rightarrow> jstr + jstr \<Rightarrow> jstr + jstr" where
  "chosen_name given header parsed =
     (case truthy given of
        Some f \<Rightarrow> Inr f
      | None \<Rightarrow>
          (case truthy (map_option remove_quotes (case truthy header of
                                                   None \<Rightarrow> None
                                                 | Some h \<Rightarrow> header_token h)) of
             Some n \<Rightarrow> Inr n
           | None \<Rightarrow>
               (case parsed of
                  Inl msg \<Rightarrow> Inl msg
                | Inr path \<Rightarrow>
                    Inr (if last_segment 47 path = [] then asc ''download''
                         else last_segment 47 path))))"

definition header_nested :: jstr where
  "header_nested = asc ''attachment; xfilename='' @ [34] @ asc ''other.bin'' @ [34] @
                   asc ''; filename='' @ [34] @ asc ''report.pdf'' @ [34]"


text \<open>
  A response with a body and no \<open>Content-Disposition\<close> header, and a page that reaches its
  server through relative addresses: \<open>fetch\<close> resolves them against the page, whereas
  \<open>new URL\<close> of such an address throws.
\<close>

definition response_plain :: response where
  "response_plain = \<lparr>ok = True, status = 200, statusText = asc ''OK'',
                      contentDisposition = None, blob = Inr [80, 68, 70]\<rparr>"

definition unparsed :: "response \<Rightarrow> env" where
  "unparsed r = \<lparr>fetch = (\<lambda>u. Resolved r), pathname = (\<lambda>u. Inl (asc ''Invalid URL''))\<rparr>"




section \<open>Properties of the matcher\<close>

declare m.simps(6) [simp del]
declare exec_from.simps [simp del]
declare replace_from.simps [simp del]
declare collapse_runs.simps [simp del]

lemma reaches_refl: "reaches x x"
  by (simp add: reaches_def)

lemma reaches_trans: "reaches x y \<Longrightarrow> reaches y z \<Longrightarrow> reaches x z"
  unfolding reaches_def by (metis append.assoc length_append add.assoc)

lemma reaches_length: "reaches x y \<Longrightarrow> length (fst (snd y)) \<le> length (fst (snd x))"
  unfolding reaches_def by auto

lemma m_Rep_zero: "mx = Some 0 \<Longrightarrow> m cn (Rep mn mx g r) x = [x]"
  by (cases x) (simp add: m.simps(6))

lemma m_Rep_pos:
  "mx \<noteq> Some 0 \<Longrightarrow> 0 < mn \<Longrightarrow>
     m cn (Rep mn mx g r) x = concat (map (m cn (Rep (mn - 1) (dec_max mx) g r)) (m cn r x))"
  by (cases x) (simp add: m.simps(6))

lemma m_Rep_posD:
  assumes "mx \<noteq> Some 0" "0 < mn" "y \<in> set (m cn (Rep mn mx g r) x)"
  shows "\<exists>z\<in>set (m cn r x). y \<in> set (m cn (Rep (mn - 1) (dec_max mx) g r) z)"
  using assms(3) by (simp add: m_Rep_pos [OF assms(1,2)])

lemma m_Rep_0D:
  assumes "mx \<noteq> Some 0" "y \<in> set (m cn (Rep 0 mx g r) x)"
  shows "y = x \<or> (\<exists>z\<in>set (m cn r x). length (fst (snd z)) < length (fst (snd x)) \<and>
                      y \<in> set (m cn (Rep 0 (dec_max mx) g r) z))"
proof -
  obtain i rest caps where x: "x = (i, rest, caps)" by (cases x)
  from assms show ?thesis unfolding x
    by (subst (asm) m.simps(6)) (auto simp: Let_def split: if_splits)
qed

lemma m_reaches: "y \<in> set (m cn r x) \<Longrightarrow> reaches x y"
proof (induction cn r x arbitrary: y rule: m.induct)
  case (1 cn a i rest caps)
  then show ?case by (auto simp: reaches_def split: list.splits if_splits)
next
  case (2 cn neg items i rest caps)
  then show ?case by (auto simp: reaches_def split: list.splits if_splits)
next
  case (3 cn i rest caps)
  then show ?case by (auto simp: reaches_def split: list.splits if_splits)
next
  case (4 cn r1 r2 x)
  from 4(3) obtain z where z: "z \<in> set (m cn r1 x)" "y \<in> set (m cn r2 z)" by auto
  have "reaches x z" using 4(1) z(1) .
  moreover have "reaches z y" using 4(2) z .
  ultimately show ?case by (rule reaches_trans)
next
  case (5 cn r1 r2 x)
  from 5(3) have "y \<in> set (m cn r1 x) \<or> y \<in> set (m cn r2 x)" by simp
  then show ?case using 5(1,2) by blast
next
  case (6 cn mn mx greedy r i rest caps)
  let ?x = "(i, rest, caps)"
  show ?case
  proof (cases "mx = Some 0")
    case True
    with "6.prems" show ?thesis by (simp add: m_Rep_zero reaches_refl)
  next
    case nz: False
    show ?thesis
    proof (cases "0 < mn")
      case True
      from m_Rep_posD [OF nz True "6.prems"] obtain z where z: "z \<in> set (m cn r ?x)"
        "y \<in> set (m cn (Rep (mn - 1) (dec_max mx) greedy r) z)"
        by blast
      have "reaches ?x z" using "6.IH"(1) [OF nz True z(1)] .
      moreover have "reaches z y" using "6.IH"(2) [OF nz True z] .
      ultimately show ?thesis by (rule reaches_trans)
    next
      case False
      show ?thesis
      proof (cases "y = ?x")
        case True
        then show ?thesis by (simp add: reaches_refl)
      next
        case ne: False
        from False "6.prems" have "y \<in> set (m cn (Rep 0 mx greedy r) ?x)" by simp
        from m_Rep_0D [OF nz this] ne obtain z where z: "z \<in> set (m cn r ?x)"
          "length (fst (snd z)) < length rest"
          "y \<in> set (m cn (Rep 0 (dec_max mx) greedy r) z)"
          by auto
        have "reaches ?x z" using "6.IH"(3) [OF nz False z(1)] .
        moreover have "reaches z y"
        proof -
          have "z \<in> set (filter (\<lambda>(j, rest', caps'). length rest' < length rest) (m cn r ?x))"
            using z(1,2) by (simp add: case_prod_beta)
          from "6.IH"(4) [OF nz False this z(3)] show ?thesis .
        qed
        ultimately show ?thesis by (rule reaches_trans)
      qed
    qed
  qed
next
  case (7 cn n r i rest caps)
  then show ?case by (fastforce simp: reaches_def)
next
  case (8 cn n i rest caps)
  show ?case
  proof (cases "caps n")
    case None
    with 8 show ?thesis by (simp add: reaches_refl)
  next
    case (Some w)
    with 8 have y: "y = (i + length w, drop (length w) rest, caps)" and le: "length w \<le> length rest"
      by (auto split: if_splits)
    have "rest = take (length w) rest @ drop (length w) rest" by simp
    moreover have "length (take (length w) rest) = length w" using le by simp
    ultimately show ?thesis unfolding reaches_def y by (metis fst_conv snd_conv)
  qed
next
  case (9 cn i rest caps)
  then show ?case by (auto simp: reaches_refl split: if_splits)
next
  case (10 cn i rest caps)
  then show ?case by (auto simp: reaches_refl split: if_splits)
next
  case (11 cn x)
  then show ?case by (simp add: reaches_refl)
qed

lemma m_nonempty:
  "nonempty r \<Longrightarrow> y \<in> set (m cn r x) \<Longrightarrow> length (fst (snd y)) < length (fst (snd x))"
proof (induction cn r x arbitrary: y rule: m.induct)
  case (4 cn r1 r2 x)
  from "4.prems"(2) obtain z where z: "z \<in> set (m cn r1 x)" "y \<in> set (m cn r2 z)" by auto
  from "4.prems"(1) have "nonempty r1 \<or> nonempty r2" by simp
  then show ?case
  proof
    assume "nonempty r1"
    then have "length (fst (snd z)) < length (fst (snd x))" using "4.IH"(1) z by blast
    moreover have "length (fst (snd y)) \<le> length (fst (snd z))"
      using m_reaches [OF z(2)] by (rule reaches_length)
    ultimately show ?thesis by simp
  next
    assume "nonempty r2"
    then have "length (fst (snd y)) < length (fst (snd z))" using "4.IH"(2) z by blast
    moreover have "length (fst (snd z)) \<le> length (fst (snd x))"
      using m_reaches [OF z(1)] by (rule reaches_length)
    ultimately show ?thesis by simp
  qed
next
  case (6 cn mn mx greedy r i rest caps)
  from "6.prems"(1) have mn: "0 < mn" and mx: "mx \<noteq> Some 0" and ne: "nonempty r" by auto
  from m_Rep_posD [OF mx mn "6.prems"(2)] obtain z where z: "z \<in> set (m cn r (i, rest, caps))"
      "y \<in> set (m cn (Rep (mn - 1) (dec_max mx) greedy r) z)"
    by blast
  have "length (fst (snd z)) < length rest" using "6.IH"(1) [OF mx mn ne z(1)] by simp
  moreover have "length (fst (snd y)) \<le> length (fst (snd z))"
    using m_reaches [OF z(2)] by (rule reaches_length)
  ultimately show ?case by simp
qed (auto split: list.splits if_splits)



lemma exec_fromD:
  assumes "exec_from cn r i rest = Some (s, e, whole, g)"
  shows "\<exists>k rest'. k \<le> length rest \<and> s = i + k \<and>
           m cn r (s, drop k rest, Map.empty) \<noteq> [] \<and>
           hd (m cn r (s, drop k rest, Map.empty)) = (e, rest', g) \<and>
           whole = take (e - s) (drop k rest) \<and>
           (\<forall>k'<k. m cn r (i + k', drop k' rest, Map.empty) = [])"
  using assms
proof (induction rest arbitrary: i)
  case Nil
  then show ?case
    by (subst (asm) exec_from.simps) (auto split: list.splits)
next
  case (Cons c cs)
  show ?case
  proof (cases "m cn r (i, c # cs, Map.empty)")
    case Nil
    with Cons.prems have "exec_from cn r (Suc i) cs = Some (s, e, whole, g)"
      by (subst (asm) exec_from.simps) simp
    from Cons.IH [OF this] obtain k rest' where k: "k \<le> length cs" "s = Suc i + k"
      "m cn r (s, drop k cs, Map.empty) \<noteq> []"
      "hd (m cn r (s, drop k cs, Map.empty)) = (e, rest', g)"
      "whole = take (e - s) (drop k cs)"
      "\<forall>k'<k. m cn r (Suc i + k', drop k' cs, Map.empty) = []"
      by blast
    have "\<forall>k'<Suc k. m cn r (i + k', drop k' (c # cs), Map.empty) = []"
    proof (intro allI impI)
      fix k' assume "k' < Suc k"
      then show "m cn r (i + k', drop k' (c # cs), Map.empty) = []"
        using Nil k(6) by (cases k') auto
    qed
    with k show ?thesis
      by (intro exI [of _ "Suc k"] exI [of _ rest']) simp
  next
    case (Cons y ys)
    obtain j rest' caps where y: "y = (j, rest', caps)" by (cases y)
    from Cons y Cons.prems have "s = i" "e = j" "whole = take (j - i) (c # cs)" "g = caps"
      by (subst (asm) exec_from.simps, simp)+
    with Cons y show ?thesis
      by (intro exI [of _ 0] exI [of _ rest']) simp
  qed
qed

lemma regex_execD:
  assumes "regex_exec cn r content lastIndex = Some (s, e, whole, g)"
  shows "lastIndex \<le> s \<and> s \<le> e \<and> e \<le> length content \<and>
         whole = take (e - s) (drop s content) \<and>
         (e, drop e content, g) \<in> set (m cn r (s, drop s content, Map.empty))"
proof -
  from assms have le: "lastIndex \<le> length content"
    and ex: "exec_from cn r lastIndex (drop lastIndex content) = Some (s, e, whole, g)"
    by (auto simp: regex_exec_def split: if_splits)
  from exec_fromD [OF ex] obtain k rest' where k: "k \<le> length (drop lastIndex content)"
    "s = lastIndex + k"
    "m cn r (s, drop k (drop lastIndex content), Map.empty) \<noteq> []"
    "hd (m cn r (s, drop k (drop lastIndex content), Map.empty)) = (e, rest', g)"
    "whole = take (e - s) (drop k (drop lastIndex content))"
    by blast
  have dk: "drop k (drop lastIndex content) = drop s content"
    using k(2) by (simp add: add.commute)
  from k(3,4) have mem: "(e, rest', g) \<in> set (m cn r (s, drop s content, Map.empty))"
    unfolding dk by (metis hd_in_set)
  from m_reaches [OF mem] obtain w where w: "drop s content = w @ rest'" "e = s + length w"
    by (auto simp: reaches_def)
  have sl: "s \<le> length content" using k(1,2) le by simp
  have "length (drop s content) = length w + length rest'" using w(1) by simp
  then have el: "e \<le> length content" using w(2) sl by simp
  have "drop e content = drop (length w) (drop s content)"
    using w(2) by (simp add: add.commute)
  also have "\<dots> = rest'" using w(1) by simp
  finally have "rest' = drop e content" ..
  with mem k(2,5) w(2) el show ?thesis unfolding dk by simp
qed

lemma regex_exec_progress:
  assumes "nonempty r" "regex_exec cn r content lastIndex = Some (s, e, whole, g)"
  shows "s < e"
proof -
  from regex_execD [OF assms(2)] have mem:
    "(e, drop e content, g) \<in> set (m cn r (s, drop s content, Map.empty))"
    and b: "s \<le> e" "e \<le> length content" by simp_all
  from m_nonempty [OF assms(1) mem] have "length (drop e content) < length (drop s content)"
    by simp
  with b show ?thesis by simp
qed

lemma scan_loop_rule:
  assumes ne: "nonempty (regex p)"
    and step: "\<And>li s e whole g st. I st \<Longrightarrow>
        regex_exec (flag_cn cz p) (regex p) content li = Some (s, e, whole, g) \<Longrightarrow>
        \<exists>st'. process_match p whole g st = Inr st' \<and> I st'"
    and init: "I st"
  shows "\<exists>st'. scan_loop cz p content lastIndex st = Some (Inr st') \<and> I st'"
  using init
proof (induction "Suc (length content) - lastIndex" arbitrary: lastIndex st rule: less_induct)
  case less
  show ?case
  proof (cases "regex_exec (flag_cn cz p) (regex p) content lastIndex")
    case None
    then show ?thesis using less.prems by (subst scan_loop.simps) simp
  next
    case (Some mt)
    obtain s e whole g where mt: "mt = (s, e, whole, g)" by (cases mt)
    from Some mt have ex: "regex_exec (flag_cn cz p) (regex p) content lastIndex = Some (s, e, whole, g)"
      by simp
    from step [OF less.prems ex] obtain st' where st': "process_match p whole g st = Inr st'" "I st'"
      by blast
    from regex_execD [OF ex] have "lastIndex \<le> s" "e \<le> length content" by simp_all
    moreover from regex_exec_progress [OF ne ex] have "s < e" .
    ultimately have "Suc (length content) - e < Suc (length content) - lastIndex" by linarith
    from less.hyps [OF this st'(2)] obtain st'' where
      "scan_loop cz p content e st' = Some (Inr st'')" "I st''" by blast
    then show ?thesis using ex st'(1) by (subst scan_loop.simps) simp
  qed
qed


lemma scan_loop_total:
  assumes ne: "nonempty (regex p)"
  shows "\<exists>res. scan_loop cz p content lastIndex st = Some res"
proof (induction "Suc (length content) - lastIndex" arbitrary: lastIndex st rule: less_induct)
  case less
  show ?case
  proof (cases "regex_exec (flag_cn cz p) (regex p) content lastIndex")
    case None
    then show ?thesis by (subst scan_loop.simps) simp
  next
    case (Some mt)
    obtain s e whole g where mt: "mt = (s, e, whole, g)" by (cases mt)
    from Some mt have ex: "regex_exec (flag_cn cz p) (regex p) content lastIndex = Some (s, e, whole, g)"
      by simp
    show ?thesis
    proof (cases "process_match p whole g st")
      case (Inl err)
      then show ?thesis using ex by (subst scan_loop.simps) simp
    next
      case (Inr st')
      from regex_execD [OF ex] have "lastIndex \<le> s" "e \<le> length content" by simp_all
      moreover from regex_exec_progress [OF ne ex] have "s < e" .
      ultimately have "Suc (length content) - e < Suc (length content) - lastIndex" by linarith
      from less.hyps [OF this] obtain res where "scan_loop cz p content e st' = Some res" by blast
      then show ?thesis using ex Inr by (subst scan_loop.simps) simp
    qed
  qed
qed

lemma scan_patterns_total:
  assumes "\<forall>p\<in>set ps. nonempty (regex p)"
  shows "\<exists>res. scan_patterns cz ps content st = Some res"
  using assms
proof (induction ps arbitrary: st)
  case Nil
  then show ?case by simp
next
  case (Cons p ps)
  from Cons.prems have "nonempty (regex p)" by simp
  from scan_loop_total [OF this] obtain res where
    res: "scan_loop cz p content 0 st = Some res" by blast
  show ?case
  proof (cases res)
    case (Inl e)
    with res show ?thesis by simp
  next
    case (Inr st')
    from Cons.IH [of st'] Cons.prems obtain res' where
      "scan_patterns cz ps content st' = Some res'" by auto
    with res Inr show ?thesis by simp
  qed
qed

lemmas rx_defs = rx_markdown_def rx_emoji_def rx_bold_def rx_keyword_def url_rx_def lit_def
  ch_def ci_def asc_def yukle_def yukleme_def yukle_small_def

lemma sorted_patterns:
  "sort_key (\<lambda>p. or99 (ppriority p)) DOWNLOAD_LINK_PATTERNS = DOWNLOAD_LINK_PATTERNS"
  by (simp add: DOWNLOAD_LINK_PATTERNS_def or99_def)

lemma patterns_nonempty: "\<forall>p\<in>set DOWNLOAD_LINK_PATTERNS. nonempty (regex p)"
  by (simp add: DOWNLOAD_LINK_PATTERNS_def rx_defs)

lemma m_single:
  "single r \<Longrightarrow> m cn r (i, rest, caps) =
     (case rest of [] \<Rightarrow> [] | c # cs \<Rightarrow> if accepts cn r c then [(Suc i, cs, caps)] else [])"
  by (cases r) (auto split: list.splits)

text \<open>A greedy unbounded quantifier over a single-unit expression: the candidates are the
  run lengths from the longest down to the minimum.\<close>

lemma m_Rep_single:
  assumes "single r"
  shows "m cn (Rep k None True r) (i, rest, caps) =
           map (\<lambda>j. (i + j, drop j rest, caps))
             (rev [k..<Suc (length (takeWhile (accepts cn r) rest))])"
proof (induction rest arbitrary: k i)
  case Nil
  show ?case
  proof (cases k)
    case 0
    then show ?thesis by (simp add: m.simps(6) m_single [OF assms])
  next
    case (Suc k')
    then show ?thesis by (simp add: m_Rep_pos m_single [OF assms])
  qed
next
  case (Cons c cs)
  let ?n = "length (takeWhile (accepts cn r) cs)"
  show ?case
  proof (cases "accepts cn r c")
    case False
    show ?thesis
    proof (cases k)
      case 0
      with False show ?thesis by (simp add: m.simps(6) m_single [OF assms])
    next
      case (Suc k')
      with False show ?thesis by (simp add: m_Rep_pos m_single [OF assms])
    qed
  next
    case True
    have shift: "map (\<lambda>j. (Suc i + j, drop j cs, caps)) (rev [k'..<Suc ?n]) =
                 map (\<lambda>j. (i + j, drop j (c # cs), caps)) (rev [Suc k'..<Suc (Suc ?n)])" for k'
    proof -
      have "[Suc k'..<Suc (Suc ?n)] = map Suc [k'..<Suc ?n]"
        by (simp only: map_Suc_upt)
      then show ?thesis by (simp add: rev_map comp_def)
    qed
    show ?thesis
    proof (cases k)
      case 0
      have "m cn (Rep 0 None True r) (i, c # cs, caps) =
              m cn (Rep 0 None True r) (Suc i, cs, caps) @ [(i, c # cs, caps)]"
        using True by (subst m.simps(6)) (simp add: m_single [OF assms])
      also have "\<dots> = map (\<lambda>j. (Suc i + j, drop j cs, caps)) (rev [0..<Suc ?n]) @ [(i, c # cs, caps)]"
        by (simp only: Cons.IH)
      also have "\<dots> = map (\<lambda>j. (i + j, drop j (c # cs), caps)) (rev [Suc 0..<Suc (Suc ?n)])
                       @ [(i, c # cs, caps)]"
        by (simp only: shift)
      also have "\<dots> = map (\<lambda>j. (i + j, drop j (c # cs), caps)) (rev [0..<Suc (Suc ?n)])"
      proof -
        have "[0..<Suc (Suc ?n)] = 0 # [Suc 0..<Suc (Suc ?n)]"
          by (rule upt_conv_Cons) simp
        then show ?thesis by simp
      qed
      finally show ?thesis using True 0 by simp
    next
      case (Suc k')
      have "m cn (Rep (Suc k') None True r) (i, c # cs, caps) =
              m cn (Rep k' None True r) (Suc i, cs, caps)"
        using True by (simp add: m_Rep_pos m_single [OF assms])
      also have "\<dots> = map (\<lambda>j. (Suc i + j, drop j cs, caps)) (rev [k'..<Suc ?n])"
        by (simp only: Cons.IH)
      also have "\<dots> = map (\<lambda>j. (i + j, drop j (c # cs), caps)) (rev [Suc k'..<Suc (Suc ?n)])"
        by (simp only: shift)
      finally show ?thesis using True Suc by simp
    qed
  qed
qed


lemma dropWhile_as_drop: "dropWhile P xs = drop (length (takeWhile P xs)) xs"
  by (induction xs) auto

lemma replace_from_runs:
  assumes "single r" "0 < k"
  shows "replace_from cn (Rep k None True r) rep i rest = collapse_runs (accepts cn r) k rep rest"
proof (induction rest arbitrary: i rule: length_induct)
  case (1 rest)
  let ?P = "accepts cn r"
  let ?n = "length (takeWhile ?P rest)"
  have ms: "m cn (Rep k None True r) (i, rest, Map.empty) =
      map (\<lambda>j. (i + j, drop j rest, Map.empty)) (rev [k..<Suc ?n])"
    by (rule m_Rep_single [OF assms(1)])
  show ?case
  proof (cases "k \<le> ?n")
    case True
    then have up: "[k..<Suc ?n] = [k..<?n] @ [?n]" by simp
    have hd: "m cn (Rep k None True r) (i, rest, Map.empty) =
        (i + ?n, dropWhile ?P rest, Map.empty) #
          map (\<lambda>j. (i + j, drop j rest, Map.empty)) (rev [k..<?n])"
      unfolding ms up by (simp add: dropWhile_as_drop)
    from assms(2) True have pos: "0 < ?n" by (rule less_le_trans)
    then have ne: "rest \<noteq> []" by auto
    have shorter: "length (dropWhile ?P rest) < length rest"
      using pos ne by (simp add: dropWhile_as_drop)
    have "replace_from cn (Rep k None True r) rep i rest =
        rep @ replace_from cn (Rep k None True r) rep (i + ?n) (dropWhile ?P rest)"
      by (subst replace_from.simps) (simp add: hd shorter)
    also have "\<dots> = rep @ collapse_runs ?P k rep (dropWhile ?P rest)"
      using 1 shorter by simp
    also have "\<dots> = collapse_runs ?P k rep rest"
      using True assms(2) ne by (cases rest) (simp_all add: collapse_runs.simps)
    finally show ?thesis .
  next
    case False
    then have nil: "m cn (Rep k None True r) (i, rest, Map.empty) = []"
      unfolding ms by simp
    show ?thesis
    proof (cases rest)
      case Nil
      then show ?thesis using nil by (subst replace_from.simps) (simp add: collapse_runs.simps)
    next
      case (Cons c cs)
      have "replace_from cn (Rep k None True r) rep i rest =
          c # replace_from cn (Rep k None True r) rep (Suc i) cs"
        using nil Cons by (subst replace_from.simps) simp
      also have "\<dots> = c # collapse_runs ?P k rep cs" using 1 Cons by simp
      also have "\<dots> = collapse_runs ?P k rep rest"
        using False Cons by (simp add: collapse_runs.simps)
      finally show ?thesis .
    qed
  qed
qed

lemma replace_from_single:
  assumes "single r"
  shows "replace_from cn r [] i rest = filter (\<lambda>c. \<not> accepts cn r c) rest"
proof (induction rest arbitrary: i)
  case Nil
  show ?case by (subst replace_from.simps) (simp add: m_single [OF assms])
next
  case (Cons c cs)
  show ?case by (subst replace_from.simps) (simp add: m_single [OF assms] Cons)
qed

lemma collapse_runs_head:
  "\<not> P c \<Longrightarrow> collapse_runs P k rep (c # cs) = c # collapse_runs P k rep cs"
  by (auto simp: collapse_runs.simps)

lemma adjacent_Cons_not: "\<not> P c \<Longrightarrow> adjacent P (c # xs) = adjacent P xs"
  by (cases xs) auto

lemma dropWhile_head: "dropWhile P xs = [] \<or> (\<exists>d ds. dropWhile P xs = d # ds \<and> \<not> P d)"
  by (metis hd_dropWhile list.exhaust list.sel(1))

lemma collapse_runs_no_adjacent:
  assumes "0 < k" "k \<le> 2" "P a"
  shows "\<not> adjacent P (collapse_runs P k [a] s)"
proof (induction s rule: length_induct)
  case (1 s)
  show ?case
  proof (cases s)
    case Nil
    then show ?thesis by (simp add: collapse_runs.simps)
  next
    case (Cons c cs)
    let ?n = "length (takeWhile P s)"
    have tail: "\<not> adjacent P (collapse_runs P k [a] t)" if "length t < length s" for t
      using 1 that by blast
    have after: "\<not> adjacent P (x # collapse_runs P k [a] t)"
      if "length t < length s" "t = [] \<or> (\<exists>d ds. t = d # ds \<and> \<not> P d)" for x t
    proof -
      from that(2) show ?thesis
      proof
        assume "t = []"
        then show ?thesis by (simp add: collapse_runs.simps)
      next
        assume "\<exists>d ds. t = d # ds \<and> \<not> P d"
        then obtain d ds where t: "t = d # ds" "\<not> P d" by blast
        have "adjacent P (x # collapse_runs P k [a] t) = adjacent P (collapse_runs P k [a] t)"
          using t by (simp add: collapse_runs_head)
        then show ?thesis using tail [OF that(1)] by simp
      qed
    qed
    show ?thesis
    proof (cases "k \<le> ?n")
      case True
      with assms(1) have pos: "0 < ?n" by (rule less_le_trans)
      have shorter: "length (dropWhile P s) < length s"
        using pos Cons by (simp add: dropWhile_as_drop)
      have "collapse_runs P k [a] s = a # collapse_runs P k [a] (dropWhile P s)"
        using True assms(1) Cons by (simp add: collapse_runs.simps)
      then show ?thesis using after [OF shorter dropWhile_head] by simp
    next
      case False
      have eq: "collapse_runs P k [a] s = c # collapse_runs P k [a] cs"
        using False Cons by (simp add: collapse_runs.simps)
      show ?thesis
      proof (cases "P c")
        case False
        then show ?thesis using eq tail [of cs] Cons by (simp add: adjacent_Cons_not)
      next
        case True
        from False assms(2) have "?n < 2" by simp
        with True Cons have "takeWhile P cs = []" by (auto split: if_splits)
        then have "cs = [] \<or> (\<exists>d ds. cs = d # ds \<and> \<not> P d)"
          by (cases cs) (auto split: if_splits)
        from after [OF _ this] Cons eq show ?thesis by simp
      qed
    qed
  qed
qed


lemma list_ex_eq: "list_ex (\<lambda>a. a = c) xs = (c \<in> set xs)"
  by (induction xs) auto

lemma item_has_id_range: "item_has id (CRange lo hi) c = (lo \<le> c \<and> c \<le> hi)"
  by (auto simp: list_ex_eq)

lemma item_has_id_space: "item_has id CSpace c = is_space c"
  unfolding item_has.simps is_space_def id_apply list_ex_eq by (rule refl)

declare item_has.simps(2,3) [simp del]

lemma accepts_space: "accepts id (Cls False [CSpace]) c = is_space c"
  by (simp add: item_has_id_space)

lemma accepts_unsafe: "accepts id rx_unsafe c = (\<not> (name_char c \<or> is_space c))"
  unfolding rx_unsafe_def name_char_def
  by (auto simp add: item_has_id_range item_has_id_space)

lemma accepts_quote: "accepts id rx_quote c = (c = 39 \<or> c = 34)"
  unfolding rx_quote_def by auto

lemma is_space_32: "is_space 32"
  by (simp add: is_space_def space_units_def)

lemma replace_spaces: "replace_all id rx_spaces (asc '' '') s = collapse_runs is_space 2 [32] s"
proof -
  have "replace_all id rx_spaces (asc '' '') s =
        collapse_runs (accepts id (Cls False [CSpace])) 2 (asc '' '') s"
    unfolding replace_all_def rx_spaces_def by (rule replace_from_runs) simp_all
  moreover have "accepts id (Cls False [CSpace]) = is_space"
    by (rule ext) (rule accepts_space)
  ultimately show ?thesis by (simp add: asc_def)
qed

lemma adjacent_Cons:
  "adjacent P (a # xs) = (xs \<noteq> [] \<and> ((P a \<and> P (hd xs)) \<or> adjacent P xs))"
  by (cases xs) auto

lemma adjacent_append:
  "adjacent P (xs @ ys) =
     (adjacent P xs \<or> adjacent P ys \<or> (xs \<noteq> [] \<and> ys \<noteq> [] \<and> P (last xs) \<and> P (hd ys)))"
proof (induction xs)
  case Nil
  show ?case by simp
next
  case (Cons a xs)
  show ?case
  proof (cases xs)
    case Nil
    then show ?thesis by (cases ys) auto
  next
    case (Cons b bs)
    with Cons.IH show ?thesis by (auto simp: adjacent_Cons)
  qed
qed

lemma adjacent_rev: "adjacent P (rev xs) = adjacent P xs"
proof (induction xs)
  case Nil
  then show ?case by simp
next
  case (Cons a xs)
  have "adjacent P (rev (a # xs)) = adjacent P (rev xs @ [a])" by simp
  also have "\<dots> = (adjacent P (rev xs) \<or> (xs \<noteq> [] \<and> P (last (rev xs)) \<and> P a))"
    by (simp add: adjacent_append)
  also have "\<dots> = (adjacent P xs \<or> (xs \<noteq> [] \<and> P (hd xs) \<and> P a))"
    using Cons by (simp add: last_rev)
  also have "\<dots> = adjacent P (a # xs)" by (cases xs) auto
  finally show ?case .
qed

lemma adjacent_dropWhile: "adjacent P (dropWhile Q xs) \<Longrightarrow> adjacent P xs"
proof -
  assume a: "adjacent P (dropWhile Q xs)"
  have "adjacent P (takeWhile Q xs @ dropWhile Q xs)"
    using a adjacent_append [of P "takeWhile Q xs" "dropWhile Q xs"] by blast
  then show ?thesis by simp
qed

lemma adjacent_trim: "adjacent P (trim s) \<Longrightarrow> adjacent P s"
  unfolding trim_def
  by (metis adjacent_rev adjacent_dropWhile)

lemma adjacent_sublist: "P a \<Longrightarrow> P b \<Longrightarrow> sublist [a, b] xs \<Longrightarrow> adjacent P xs"
  by (auto simp: sublist_def adjacent_append)

lemma removeDownloadLinks_no_adjacent:
  "\<not> adjacent is_space (removeDownloadLinks content links)"
proof
  assume "adjacent is_space (removeDownloadLinks content links)"
  then have "adjacent is_space (collapse_runs is_space 2 [32]
      (replace_all id rx_newlines [10, 10] (fold strip_link links content)))"
    unfolding removeDownloadLinks_def replace_spaces by (rule adjacent_trim)
  moreover have "\<not> adjacent is_space (collapse_runs is_space 2 [32]
      (replace_all id rx_newlines [10, 10] (fold strip_link links content)))"
    by (rule collapse_runs_no_adjacent) (simp_all add: is_space_32)
  ultimately show False by contradiction
qed

section \<open>File names\<close>

declare show_nat.simps [simp del]

lemma replace_quotes: "replace_all id rx_quote [] v = remove_quotes v"
proof -
  have "single rx_quote" by (simp add: rx_quote_def)
  then have "replace_all id rx_quote [] v = filter (\<lambda>c. \<not> accepts id rx_quote c) v"
    unfolding replace_all_def by (rule replace_from_single)
  then show ?thesis by (simp add: accepts_quote remove_quotes_def)
qed

lemma split_on_nonempty: "split_on sep s \<noteq> []"
  by (induction s) (auto split: list.splits)

lemma last_split_on: "last (split_on sep s) = last_segment sep s"
proof (induction s)
  case Nil
  show ?case by (simp add: last_segment_def)
next
  case (Cons c cs)
  show ?case
  proof (cases "c = sep")
    case True
    then have "last (split_on sep (c # cs)) = last (split_on sep cs)"
      by (simp add: split_on_nonempty)
    also have "\<dots> = last_segment sep cs" by (rule Cons.IH)
    also have "\<dots> = last_segment sep (c # cs)"
      using True by (simp add: last_segment_def takeWhile_append)
    finally show ?thesis .
  next
    case False
    obtain x xs where sp: "split_on sep cs = x # xs"
      using split_on_nonempty [of sep cs] by (cases "split_on sep cs") auto
    show ?thesis
    proof (cases xs)
      case Nil
      with sp Cons.IH have x: "x = last_segment sep cs" by simp
      from sp Nil have "sep \<notin> set cs"
      proof (induction cs arbitrary: x)
        case Nil
        then show ?case by simp
      next
        case (Cons d ds)
        then show ?case
          using split_on_nonempty [of sep ds] by (auto split: if_splits list.splits)
      qed
      then have all: "takeWhile (\<lambda>c. c \<noteq> sep) (rev cs) = rev cs"
        by (auto simp: takeWhile_eq_all_conv)
      from sp Nil False have "last (split_on sep (c # cs)) = c # x" by simp
      also have "\<dots> = last_segment sep (c # cs)"
        using x all False by (simp add: last_segment_def takeWhile_append)
      finally show ?thesis .
    next
      case (Cons y ys)
      with sp have "sep \<in> set cs"
      proof (induction cs arbitrary: x y ys)
        case Nil
        then show ?case by simp
      next
        case (Cons d ds)
        then show ?case
          by (auto split: if_splits list.splits)
      qed
      then have tw: "takeWhile (\<lambda>c. c \<noteq> sep) (rev cs @ [c]) = takeWhile (\<lambda>c. c \<noteq> sep) (rev cs)"
        by (intro takeWhile_append1 [of sep]) simp_all
      from sp Cons False have "last (split_on sep (c # cs)) = last (split_on sep cs)" by simp
      also have "\<dots> = last_segment sep cs" by (rule Cons.IH)
      also have "\<dots> = last_segment sep (c # cs)"
        using tw by (simp add: last_segment_def)
      finally show ?thesis .
    qed
  qed
qed

section \<open>The cleaned name\<close>

lemma replace_unsafe:
  "replace_all id rx_unsafe [] s = filter (\<lambda>c. name_char c \<or> is_space c) s"
proof -
  have "single rx_unsafe" by (simp add: rx_unsafe_def)
  then have "replace_all id rx_unsafe [] s = filter (\<lambda>c. \<not> accepts id rx_unsafe c) s"
    unfolding replace_all_def by (rule replace_from_single)
  then show ?thesis by (simp add: accepts_unsafe)
qed

lemma replace_space_run:
  "replace_all id rx_space_run (asc ''_'') s = collapse_runs is_space 1 [95] s"
proof -
  have "replace_all id rx_space_run (asc ''_'') s =
        collapse_runs (accepts id (Cls False [CSpace])) 1 (asc ''_'') s"
    unfolding replace_all_def rx_space_run_def by (rule replace_from_runs) simp_all
  moreover have "accepts id (Cls False [CSpace]) = is_space"
    by (rule ext) (rule accepts_space)
  ultimately show ?thesis by (simp add: asc_def)
qed

lemma replace_underscores:
  "replace_all id rx_underscores (asc ''_'') s = collapse_runs (\<lambda>c. c = 95) 2 [95] s"
proof -
  have "replace_all id rx_underscores (asc ''_'') s =
        collapse_runs (accepts id (ch CHR ''_'')) 2 (asc ''_'') s"
    unfolding replace_all_def rx_underscores_def by (rule replace_from_runs) (simp_all add: ch_def)
  moreover have "accepts id (ch CHR ''_'') = (\<lambda>c. c = 95)"
    by (rule ext) (simp add: ch_def)
  ultimately show ?thesis by (simp add: asc_def)
qed

lemma m_edge:
  "m id rx_edge_underscore (i, rest, Map.empty) =
     (case rest of [] \<Rightarrow> []
      | c # cs \<Rightarrow> (if i = 0 \<and> c = 95 then [(Suc i, cs, Map.empty)] else []) @
                  (if c = 95 \<and> cs = [] then [(Suc i, cs, Map.empty)] else []))"
  by (auto simp: rx_edge_underscore_def ch_def split: list.splits)

lemma replace_edge_step:
  "replace_from id rx_edge_underscore [] i (c # cs) =
     (if (i = 0 \<and> c = 95) \<or> (c = 95 \<and> cs = [])
      then replace_from id rx_edge_underscore [] (Suc i) cs
      else c # replace_from id rx_edge_underscore [] (Suc i) cs)"
  by (subst replace_from.simps) (simp add: m_edge)

lemma replace_edge_nil: "replace_from id rx_edge_underscore [] i [] = []"
  by (subst replace_from.simps) (simp add: m_edge)

lemma replace_edge_later:
  "0 < i \<Longrightarrow> replace_from id rx_edge_underscore [] i s =
     (if s \<noteq> [] \<and> last s = 95 then butlast s else s)"
proof (induction s arbitrary: i)
  case Nil
  show ?case by (simp only: replace_edge_nil) simp
next
  case (Cons c cs)
  have rec: "replace_from id rx_edge_underscore [] (Suc i) cs =
     (if cs \<noteq> [] \<and> last cs = 95 then butlast cs else cs)"
    by (rule Cons.IH) simp
  have "replace_from id rx_edge_underscore [] i (c # cs) =
     (if c = 95 \<and> cs = [] then (if cs \<noteq> [] \<and> last cs = 95 then butlast cs else cs)
      else c # (if cs \<noteq> [] \<and> last cs = 95 then butlast cs else cs))"
    using Cons.prems by (simp only: replace_edge_step rec) simp
  also have "\<dots> = (if c # cs \<noteq> [] \<and> last (c # cs) = 95 then butlast (c # cs) else c # cs)"
    by auto
  finally show ?case .
qed

lemma replace_edge: "replace_all id rx_edge_underscore [] s = strip_edges s"
proof (cases s)
  case Nil
  then show ?thesis
    by (simp only: replace_all_def replace_edge_nil) (simp add: strip_edges_def)
next
  case (Cons c cs)
  have later: "replace_from id rx_edge_underscore [] (Suc 0) cs =
     (if cs \<noteq> [] \<and> last cs = 95 then butlast cs else cs)"
    by (rule replace_edge_later) simp
  have "replace_all id rx_edge_underscore [] s =
     (if c = 95 then (if cs \<noteq> [] \<and> last cs = 95 then butlast cs else cs)
      else c # (if cs \<noteq> [] \<and> last cs = 95 then butlast cs else cs))"
    unfolding Cons by (simp only: replace_all_def replace_edge_step later) simp
  also have "\<dots> = strip_edges s"
    unfolding Cons by (auto simp: strip_edges_def)
  finally show ?thesis .
qed

lemma cleanName_eq:
  "cleanName toLowerCase templateName =
     strip_edges (collapse_runs (\<lambda>c. c = 95) 2 [95]
       (collapse_runs is_space 1 [95]
         (filter (\<lambda>c. name_char c \<or> is_space c) (toLowerCase templateName))))"
  by (simp add: cleanName_def replace_unsafe replace_space_run replace_underscores replace_edge)

lemma collapse_runs_set: "set (collapse_runs P k rep s) \<subseteq> set s \<union> set rep"
proof (induction P k rep s rule: collapse_runs.induct)
  case (1 P k rep)
  show ?case by (simp add: collapse_runs.simps)
next
  case (2 P k rep c cs)
  show ?case
  proof (cases "0 < k \<and> k \<le> length (takeWhile P (c # cs))")
    case True
    have "set (dropWhile P (c # cs)) \<subseteq> set (c # cs)" by (rule set_dropWhileD [THEN subsetI])
    with 2(1) [OF True] True show ?thesis
      by (subst collapse_runs.simps) auto
  next
    case False
    with 2(2) [OF False] show ?thesis
      by (subst collapse_runs.simps) auto
  qed
qed

lemma collapse_runs_one_set:
  "set (collapse_runs P 1 rep s) \<subseteq> {c \<in> set s. \<not> P c} \<union> set rep"
proof (induction s rule: length_induct)
  case (1 s)
  show ?case
  proof (cases s)
    case Nil
    then show ?thesis by (simp add: collapse_runs.simps)
  next
    case (Cons c cs)
    show ?thesis
    proof (cases "P c")
      case True
      have eq: "collapse_runs P 1 rep s = rep @ collapse_runs P 1 rep (dropWhile P cs)"
        using True Cons by (simp add: collapse_runs.simps)
      have "length (dropWhile P cs) < length s"
        using Cons by (simp add: length_dropWhile_le le_imp_less_Suc)
      with 1 have "set (collapse_runs P 1 rep (dropWhile P cs))
          \<subseteq> {c \<in> set (dropWhile P cs). \<not> P c} \<union> set rep" by blast
      moreover have "set (dropWhile P cs) \<subseteq> set s"
        using Cons set_dropWhileD [of _ P cs] by auto
      ultimately show ?thesis unfolding eq by auto
    next
      case False
      have eq: "collapse_runs P 1 rep s = c # collapse_runs P 1 rep cs"
        using False Cons by (simp add: collapse_runs_head)
      from 1 Cons have "set (collapse_runs P 1 rep cs) \<subseteq> {c \<in> set cs. \<not> P c} \<union> set rep"
        by simp
      then show ?thesis unfolding eq using False Cons by auto
    qed
  qed
qed

lemma set_strip_edges: "set (strip_edges s) \<subseteq> set s"
  by (auto simp: strip_edges_def Let_def split: list.splits if_splits dest: in_set_butlastD)

lemma adjacent_butlast: "adjacent P (butlast xs) \<Longrightarrow> adjacent P xs"
proof (cases "xs = []")
  case True
  assume "adjacent P (butlast xs)"
  with True show ?thesis by simp
next
  case False
  assume a: "adjacent P (butlast xs)"
  have "adjacent P (butlast xs @ [last xs])"
    using a adjacent_append [of P "butlast xs" "[last xs]"] by blast
  with False show ?thesis by simp
qed

lemma adjacent_tl: "adjacent P (tl xs) \<Longrightarrow> adjacent P xs"
  by (cases xs) (auto simp: adjacent_Cons)

lemma adjacent_strip_edges:
  assumes "adjacent P (strip_edges s)"
  shows "adjacent P s"
proof -
  define t where "t = (case s of [] \<Rightarrow> [] | c # cs \<Rightarrow> if c = 95 then cs else s)"
  have r: "strip_edges s = (if t \<noteq> [] \<and> last t = 95 then butlast t else t)"
    by (simp add: strip_edges_def t_def)
  have "adjacent P t"
    using assms unfolding r by (auto split: if_splits dest: adjacent_butlast)
  moreover have "t = s \<or> t = tl s"
    by (auto simp: t_def split: list.splits)
  ultimately show ?thesis using adjacent_tl by metis
qed

lemma strip_edges_ends:
  assumes na: "\<not> adjacent (\<lambda>c. c = 95) s" and ne: "strip_edges s \<noteq> []"
  shows "hd (strip_edges s) \<noteq> 95 \<and> last (strip_edges s) \<noteq> 95"
proof -
  define t where "t = (case s of [] \<Rightarrow> [] | c # cs \<Rightarrow> if c = 95 then cs else s)"
  have r: "strip_edges s = (if t \<noteq> [] \<and> last t = 95 then butlast t else t)"
    by (simp add: strip_edges_def t_def)
  from ne r have tne: "t \<noteq> []" by (auto split: if_splits)
  have nat: "\<not> adjacent (\<lambda>c. c = 95) t"
    using na by (auto simp: t_def adjacent_Cons split: list.splits if_splits)
  have hdt: "hd t \<noteq> 95"
    using na tne by (auto simp: t_def adjacent_Cons split: list.splits if_splits)
  show ?thesis
  proof (cases "last t = 95")
    case False
    with r tne hdt show ?thesis by simp
  next
    case True
    with r tne have r': "strip_edges s = butlast t" by simp
    with ne have bne: "butlast t \<noteq> []" by simp
    have t_eq: "t = butlast t @ [last t]" using tne by simp
    have "\<not> adjacent (\<lambda>c. c = 95) (butlast t @ [last t])" using nat t_eq by simp
    then have "last (butlast t) \<noteq> 95"
      using bne True by (simp add: adjacent_append)
    moreover have "hd (butlast t) = hd t"
      using bne by (cases t) auto
    ultimately show ?thesis using r' hdt by simp
  qed
qed

lemma cleanName_props:
  "(\<forall>c\<in>set (cleanName lc s). name_char c \<or> c = 95) \<and>
   \<not> adjacent (\<lambda>c. c = 95) (cleanName lc s) \<and>
   (cleanName lc s \<noteq> [] \<longrightarrow> hd (cleanName lc s) \<noteq> 95 \<and> last (cleanName lc s) \<noteq> 95)"
proof -
  let ?x1 = "filter (\<lambda>c. name_char c \<or> is_space c) (lc s)"
  let ?x2 = "collapse_runs is_space 1 [95] ?x1"
  let ?x3 = "collapse_runs (\<lambda>c. c = 95) 2 [95] ?x2"
  have eq: "cleanName lc s = strip_edges ?x3" by (rule cleanName_eq)
  have s2: "\<forall>c\<in>set ?x2. name_char c \<or> c = 95"
    using collapse_runs_one_set [of is_space "[95]" ?x1] by auto
  have s3: "\<forall>c\<in>set ?x3. name_char c \<or> c = 95"
    using collapse_runs_set [of "\<lambda>c. c = 95" 2 "[95]" ?x2] s2 by auto
  have n3: "\<not> adjacent (\<lambda>c. c = 95) ?x3"
    by (rule collapse_runs_no_adjacent) simp_all
  have "\<forall>c\<in>set (strip_edges ?x3). name_char c \<or> c = 95"
    using set_strip_edges [of ?x3] s3 by blast
  moreover have "\<not> adjacent (\<lambda>c. c = 95) (strip_edges ?x3)"
    using n3 adjacent_strip_edges by blast
  moreover have "strip_edges ?x3 \<noteq> [] \<longrightarrow>
      hd (strip_edges ?x3) \<noteq> 95 \<and> last (strip_edges ?x3) \<noteq> 95"
    using strip_edges_ends [OF n3] by blast
  ultimately show ?thesis unfolding eq by blast
qed

section \<open>Captures\<close>

lemma m_keeps:
  "y \<in> set (m cn r x) \<Longrightarrow> snd (snd x) n \<noteq> None \<Longrightarrow> snd (snd y) n \<noteq> None"
proof (induction cn r x arbitrary: y rule: m.induct)
  case (4 cn r1 r2 x)
  from "4.prems"(1) obtain z where z: "z \<in> set (m cn r1 x)" "y \<in> set (m cn r2 z)" by auto
  from "4.IH"(1) [OF z(1) "4.prems"(2)] have "snd (snd z) n \<noteq> None" .
  from "4.IH"(2) [OF z this] show ?case .
next
  case (5 cn r1 r2 x)
  from "5.prems"(1) have "y \<in> set (m cn r1 x) \<or> y \<in> set (m cn r2 x)" by simp
  then show ?case using "5.IH" "5.prems"(2) by blast
next
  case (6 cn mn mx greedy r i rest caps)
  let ?x = "(i, rest, caps)"
  show ?case
  proof (cases "mx = Some 0")
    case True
    with "6.prems" show ?thesis by (simp add: m_Rep_zero)
  next
    case nz: False
    show ?thesis
    proof (cases "0 < mn")
      case True
      from m_Rep_posD [OF nz True "6.prems"(1)] obtain z where z: "z \<in> set (m cn r ?x)"
        "y \<in> set (m cn (Rep (mn - 1) (dec_max mx) greedy r) z)"
        by blast
      from "6.IH"(1) [OF nz True z(1) "6.prems"(2)] have "snd (snd z) n \<noteq> None" .
      from "6.IH"(2) [OF nz True z this] show ?thesis .
    next
      case False
      show ?thesis
      proof (cases "y = ?x")
        case True
        then show ?thesis using "6.prems"(2) by simp
      next
        case ne: False
        from False "6.prems" have "y \<in> set (m cn (Rep 0 mx greedy r) ?x)" by simp
        from m_Rep_0D [OF nz this] ne obtain z where z: "z \<in> set (m cn r ?x)"
          "length (fst (snd z)) < length rest"
          "y \<in> set (m cn (Rep 0 (dec_max mx) greedy r) z)"
          by auto
        from "6.IH"(3) [OF nz False z(1) "6.prems"(2)] have zn: "snd (snd z) n \<noteq> None" .
        have "z \<in> set (filter (\<lambda>(j, rest', caps'). length rest' < length rest) (m cn r ?x))"
          using z(1,2) by (simp add: case_prod_beta)
        from "6.IH"(4) [OF nz False this z(3) zn] show ?thesis .
      qed
    qed
  qed
next
  case (7 cn k r i rest caps)
  from "7.prems"(1) obtain z where z: "z \<in> set (m cn r (i, rest, caps))"
    "y = (fst z, fst (snd z), (snd (snd z))(k \<mapsto> take (fst z - i) rest))"
    by (auto simp: case_prod_beta)
  from "7.IH" [OF z(1) "7.prems"(2)] have "snd (snd z) n \<noteq> None" .
  then show ?case using z(2) by simp
qed (auto split: list.splits if_splits option.splits)

lemma m_binds:
  "binds r n \<Longrightarrow> y \<in> set (m cn r x) \<Longrightarrow> snd (snd y) n \<noteq> None"
proof (induction cn r x arbitrary: y rule: m.induct)
  case (4 cn r1 r2 x)
  from "4.prems"(2) obtain z where z: "z \<in> set (m cn r1 x)" "y \<in> set (m cn r2 z)" by auto
  from "4.prems"(1) have "binds r1 n \<or> binds r2 n" by simp
  then show ?case
  proof
    assume "binds r1 n"
    from "4.IH"(1) [OF this z(1)] have "snd (snd z) n \<noteq> None" .
    from m_keeps [OF z(2) this] show ?thesis .
  next
    assume "binds r2 n"
    from "4.IH"(2) [OF z(1) this z(2)] show ?thesis .
  qed
next
  case (5 cn r1 r2 x)
  from "5.prems"(1) have b: "binds r1 n" "binds r2 n" by simp_all
  from "5.prems"(2) have "y \<in> set (m cn r1 x) \<or> y \<in> set (m cn r2 x)" by simp
  then show ?case using "5.IH"(1) [OF b(1)] "5.IH"(2) [OF b(2)] by blast
next
  case (6 cn mn mx greedy r i rest caps)
  from "6.prems"(1) have mn: "0 < mn" and mx: "mx \<noteq> Some 0" and b: "binds r n" by auto
  from m_Rep_posD [OF mx mn "6.prems"(2)] obtain z where z: "z \<in> set (m cn r (i, rest, caps))"
      "y \<in> set (m cn (Rep (mn - 1) (dec_max mx) greedy r) z)"
    by blast
  from "6.IH"(1) [OF mx mn b z(1)] have "snd (snd z) n \<noteq> None" .
  from m_keeps [OF z(2) this] show ?case .
next
  case (7 cn k r i rest caps)
  from "7.prems"(2) obtain z where z: "z \<in> set (m cn r (i, rest, caps))"
    "y = (fst z, fst (snd z), (snd (snd z))(k \<mapsto> take (fst z - i) rest))"
    by (auto simp: case_prod_beta)
  show ?case
  proof (cases "k = n")
    case True
    then show ?thesis using z(2) by simp
  next
    case False
    with "7.prems"(1) have "binds r n" by simp
    from "7.IH" [OF this z(1)] show ?thesis using z(2) by simp
  qed
qed auto

lemma patterns_bind_url: "\<forall>p\<in>set DOWNLOAD_LINK_PATTERNS. binds (regex p) (urlIndex p)"
  by (simp add: DOWNLOAD_LINK_PATTERNS_def rx_defs)

lemma patterns_bind_text:
  "\<forall>p\<in>set DOWNLOAD_LINK_PATTERNS. \<forall>k. textIndex p = Some k \<longrightarrow> binds (regex p) k"
  by (simp add: DOWNLOAD_LINK_PATTERNS_def rx_defs)

lemma regex_exec_binds:
  assumes "binds r n" "regex_exec cn r content lastIndex = Some (s, e, whole, g)"
  shows "g n \<noteq> None"
proof -
  from regex_execD [OF assms(2)] have
    "(e, drop e content, g) \<in> set (m cn r (s, drop s content, Map.empty))" by simp
  from m_binds [OF assms(1) this] show ?thesis by simp
qed

section \<open>The links found\<close>

lemma trim_keeps_http:
  assumes "prefix (asc ''http'') u"
  shows "prefix (asc ''http'') (trim u) \<and> trim u \<noteq> []"
proof -
  from assms obtain t where u: "u = asc ''http'' @ t" by (auto simp: prefix_def)
  have h: "\<not> is_space 104" and p: "\<not> is_space 112"
    by (simp_all add: is_space_def space_units_def)
  have front: "dropWhile is_space u = u"
    using h by (simp add: u asc_def)
  have "rev u = rev t @ [112, 116, 116, 104]" by (simp add: u asc_def)
  then have "dropWhile is_space (rev u) = dropWhile is_space (rev t) @ [112, 116, 116, 104]"
    using p by (simp add: dropWhile_append3)
  then have "trim u = asc ''http'' @ rev (dropWhile is_space (rev t))"
    by (simp add: trim_def front asc_def)
  then show ?thesis by (simp add: asc_def)
qed

lemma links_ok_mono: "links_ok content b links \<Longrightarrow> b \<le> b' \<Longrightarrow> links_ok content b' links"
  by (auto simp: links_ok_def)

lemma links_ok_snoc:
  assumes "links_ok content b links" "priority l = b" "url l \<noteq> []"
    "prefix (asc ''http'') (url l)" "fullMatch l \<noteq> []" "sublist (fullMatch l) content"
  shows "links_ok content b (links @ [l])"
  using assms by (auto simp: links_ok_def sorted_append)

lemma whole_sublist:
  assumes "regex_exec cn r content lastIndex = Some (s, e, whole, g)" "nonempty r"
  shows "whole \<noteq> [] \<and> sublist whole content"
proof -
  from regex_execD [OF assms(1)] have w: "whole = take (e - s) (drop s content)"
    and le: "e \<le> length content" by simp_all
  from regex_exec_progress [OF assms(2,1)] have lt: "s < e" .
  have "content = take s content @ drop s content" by simp
  moreover have "drop s content = take (e - s) (drop s content) @ drop (e - s) (drop s content)"
    by (simp only: append_take_drop_id)
  ultimately have "content = take s content @ whole @ drop (e - s) (drop s content)"
    unfolding w by simp
  then have "sublist whole content" unfolding sublist_def by blast
  moreover have "whole \<noteq> []" using w lt le by simp
  ultimately show ?thesis by simp
qed

lemma process_match_ok:
  assumes p: "p \<in> set DOWNLOAD_LINK_PATTERNS"
    and ex: "regex_exec (flag_cn cz p) (regex p) content lastIndex = Some (s, e, whole, g)"
    and ok: "links_ok content (or99 (ppriority p)) (fst st)"
  shows "\<exists>st'. process_match p whole g st = Inr st' \<and> links_ok content (or99 (ppriority p)) (fst st')"
proof -
  obtain links seen where st: "st = (links, seen)" by (cases st)
  from p patterns_nonempty have ne: "nonempty (regex p)" by blast
  from whole_sublist [OF ex ne] have w: "whole \<noteq> []" "sublist whole content" by simp_all
  have lt: "\<exists>t. link_text p g = Inr t"
  proof (cases "textIndex p")
    case None
    then show ?thesis by (simp add: link_text_def)
  next
    case (Some k)
    with p patterns_bind_text have "binds (regex p) k" by blast
    from regex_exec_binds [OF this ex] obtain t where "g k = Some t" by auto
    with Some show ?thesis by (simp add: link_text_def)
  qed
  then obtain t where t: "link_text p g = Inr t" by blast
  show ?thesis
  proof (cases "g (urlIndex p)")
    case None
    then show ?thesis using ok st by (simp add: process_match_def)
  next
    case (Some u)
    show ?thesis
    proof (cases "u \<in> seen \<or> u = [] \<or> \<not> prefix (asc ''http'') u")
      case True
      then show ?thesis using Some ok st by (auto simp: process_match_def)
    next
      case False
      then have pre: "prefix (asc ''http'') u" by simp
      let ?l = "\<lparr>ltext = t, url = trim u, ltype = ptype p, fullMatch = whole,
                 priority = or99 (ppriority p)\<rparr>"
      have pm: "process_match p whole g st = Inr (links @ [?l], insert u seen)"
        using False Some st t by (simp add: process_match_def)
      have "links_ok content (or99 (ppriority p)) (links @ [?l])"
        using ok st trim_keeps_http [OF pre] w by (intro links_ok_snoc) simp_all
      with pm show ?thesis by simp
    qed
  qed
qed

lemma scan_loop_ok:
  assumes p: "p \<in> set DOWNLOAD_LINK_PATTERNS"
    and ok: "links_ok content (or99 (ppriority p)) (fst st)"
  shows "\<exists>st'. scan_loop cz p content lastIndex st = Some (Inr st') \<and>
               links_ok content (or99 (ppriority p)) (fst st')"
proof -
  from p patterns_nonempty have ne: "nonempty (regex p)" by blast
  show ?thesis
    by (rule scan_loop_rule [where I = "\<lambda>st. links_ok content (or99 (ppriority p)) (fst st)",
          OF ne _ ok])
       (rule process_match_ok [OF p])
qed

lemma scan_patterns_ok:
  assumes "sorted (map (\<lambda>p. or99 (ppriority p)) ps)" "set ps \<subseteq> set DOWNLOAD_LINK_PATTERNS"
    "links_ok content b (fst st)" "\<forall>p\<in>set ps. b \<le> or99 (ppriority p)"
  shows "\<exists>st' b'. scan_patterns cz ps content st = Some (Inr st') \<and> links_ok content b' (fst st')"
  using assms
proof (induction ps arbitrary: b st)
  case Nil
  then show ?case by auto
next
  case (Cons p ps)
  let ?q = "or99 (ppriority p)"
  from Cons.prems have p: "p \<in> set DOWNLOAD_LINK_PATTERNS" and bq: "b \<le> ?q" by simp_all
  from links_ok_mono [OF Cons.prems(3) bq] have "links_ok content ?q (fst st)" .
  from scan_loop_ok [OF p this] obtain st1 where
    st1: "scan_loop cz p content 0 st = Some (Inr st1)" "links_ok content ?q (fst st1)" by blast
  from Cons.prems(1) have srt: "sorted (map (\<lambda>p. or99 (ppriority p)) ps)"
    and ge: "\<forall>p'\<in>set ps. ?q \<le> or99 (ppriority p')" by simp_all
  from Cons.prems(2) have sub: "set ps \<subseteq> set DOWNLOAD_LINK_PATTERNS" by simp
  from Cons.IH [OF srt sub st1(2) ge] obtain st' b' where
    "scan_patterns cz ps content st1 = Some (Inr st')" "links_ok content b' (fst st')" by blast
  with st1(1) show ?case by auto
qed

lemma discoverLinks_ok:
  "\<exists>found seen b. discoverLinks cz content = Some (Inr (found, seen)) \<and> links_ok content b found"
proof -
  have "sorted (map (\<lambda>p. or99 (ppriority p)) DOWNLOAD_LINK_PATTERNS)"
    by (simp add: DOWNLOAD_LINK_PATTERNS_def or99_def)
  moreover have "links_ok content 0 (fst ([], {}))" by (simp add: links_ok_def)
  ultimately obtain st' b' where
    "scan_patterns cz DOWNLOAD_LINK_PATTERNS content ([], {}) = Some (Inr st')"
    "links_ok content b' (fst st')"
    using scan_patterns_ok [of DOWNLOAD_LINK_PATTERNS content 0 "([], {})" cz] by auto
  then show ?thesis
    by (cases st') (auto simp: discoverLinks_def sorted_patterns)
qed

lemma parseDownloadLinks_ok:
  "\<exists>found seen b. discoverLinks cz content = Some (Inr (found, seen)) \<and>
     parseDownloadLinks cz content = Some (Inr found) \<and> links_ok content b found"
proof -
  from discoverLinks_ok obtain found seen b where
    d: "discoverLinks cz content = Some (Inr (found, seen))" "links_ok content b found"
    by blast
  from d(2) have "sorted (map priority found)" by (simp add: links_ok_def)
  then have "sort_key priority found = found" by (rule sort_key_id_if_sorted)
  with d show ?thesis by (auto simp: parseDownloadLinks_def)
qed

section \<open>The shape of a URL\<close>

lemma has_url_shape_append: "has_url_shape cn s \<Longrightarrow> has_url_shape cn (w @ s)"
  by (induction w) auto

lemma url_shape_at_has: "url_shape_at cn s \<Longrightarrow> has_url_shape cn s"
  by (cases s) (auto simp: url_shape_at_def ci_prefix_def asc_def)

lemma reaches_shape:
  "reaches x z \<Longrightarrow> has_url_shape cn (fst (snd z)) \<Longrightarrow> has_url_shape cn (fst (snd x))"
  by (auto simp: reaches_def has_url_shape_append)

lemma leads_SeqR: "leads cn b \<Longrightarrow> leads cn (Seq a b)"
  unfolding leads_def
proof (intro allI impI)
  fix x y
  assume b: "\<forall>x y. y \<in> set (m cn b x) \<longrightarrow> has_url_shape cn (fst (snd x))"
    and y: "y \<in> set (m cn (Seq a b) x)"
  from y obtain z where z: "z \<in> set (m cn a x)" "y \<in> set (m cn b z)" by auto
  from b z(2) have "has_url_shape cn (fst (snd z))" by blast
  with m_reaches [OF z(1)] show "has_url_shape cn (fst (snd x))" by (rule reaches_shape)
qed

lemma leads_SeqL: "leads cn a \<Longrightarrow> leads cn (Seq a b)"
  unfolding leads_def
proof (intro allI impI)
  fix x y
  assume a: "\<forall>x y. y \<in> set (m cn a x) \<longrightarrow> has_url_shape cn (fst (snd x))"
    and y: "y \<in> set (m cn (Seq a b) x)"
  from y obtain z where "z \<in> set (m cn a x)" by auto
  with a show "has_url_shape cn (fst (snd x))" by blast
qed

lemma leads_Grp: "leads cn r \<Longrightarrow> leads cn (Grp n r)"
  unfolding leads_def
proof (intro allI impI)
  fix x y
  assume r: "\<forall>x y. y \<in> set (m cn r x) \<longrightarrow> has_url_shape cn (fst (snd x))"
    and y: "y \<in> set (m cn (Grp n r) x)"
  from y obtain z where "z \<in> set (m cn r x)" by (cases x) auto
  with r show "has_url_shape cn (fst (snd x))" by blast
qed

lemma m_Chr:
  "y \<in> set (m cn (Chr a) x) \<longleftrightarrow>
     (\<exists>c cs. fst (snd x) = c # cs \<and> cn c = cn a \<and> y = (Suc (fst x), cs, snd (snd x)))"
  by (cases x) (auto split: list.splits)

lemma m_opt_Chr:
  "y \<in> set (m cn (opt (Chr a)) x) \<Longrightarrow>
     y = x \<or> (\<exists>c cs. fst (snd x) = c # cs \<and> cn c = cn a \<and> y = (Suc (fst x), cs, snd (snd x)))"
proof -
  assume y: "y \<in> set (m cn (opt (Chr a)) x)"
  have "Some (1::nat) \<noteq> Some 0" by simp
  from m_Rep_0D [OF this y] show ?thesis
  proof
    assume "y = x"
    then show ?thesis by simp
  next
    assume "\<exists>z\<in>set (m cn (Chr a) x). length (fst (snd z)) < length (fst (snd x)) \<and>
        y \<in> set (m cn (Rep 0 (dec_max (Some 1)) True (Chr a)) z)"
    then obtain z where z: "z \<in> set (m cn (Chr a) x)"
      "y \<in> set (m cn (Rep 0 (Some 0) True (Chr a)) z)" by auto
    from z(2) have "y = z" by (simp add: m_Rep_zero)
    with z(1) show ?thesis by (simp add: m_Chr)
  qed
qed

lemma leads_url: "leads cn (url_rx stop)"
  unfolding leads_def
proof (intro allI impI)
  fix x y
  assume "y \<in> set (m cn (url_rx stop) x)"
  then obtain x1 x2 x3 where
    x1: "x1 \<in> set (m cn (lit (asc ''http'')) x)" and
    x2: "x2 \<in> set (m cn (opt (ch CHR ''s'')) x1)" and
    x3: "x3 \<in> set (m cn (lit (asc ''://'')) x2)"
    by (auto simp: url_rx_def)
  from x1 obtain c1 c2 c3 c4 where h: "fst (snd x) = c1 # c2 # c3 # c4 # fst (snd x1)"
    "cn c1 = cn 104" "cn c2 = cn 116" "cn c3 = cn 116" "cn c4 = cn 112"
    by (auto simp: lit_def asc_def m_Chr)
  from x3 obtain d1 d2 d3 where t: "fst (snd x2) = d1 # d2 # d3 # fst (snd x3)"
    "cn d1 = cn 58" "cn d2 = cn 47" "cn d3 = cn 47"
    by (auto simp: lit_def asc_def m_Chr)
  from m_opt_Chr [OF x2 [unfolded ch_def]]
  have "fst (snd x1) = fst (snd x2) \<or> (\<exists>c. fst (snd x1) = c # fst (snd x2) \<and> cn c = cn 115)"
    by auto
  then have "url_shape_at cn (fst (snd x))"
  proof
    assume "fst (snd x1) = fst (snd x2)"
    then show ?thesis using h t by (simp add: url_shape_at_def ci_prefix_def asc_def)
  next
    assume "\<exists>c. fst (snd x1) = c # fst (snd x2) \<and> cn c = cn 115"
    then show ?thesis using h t by (auto simp: url_shape_at_def ci_prefix_def asc_def)
  qed
  then show "has_url_shape cn (fst (snd x))" by (rule url_shape_at_has)
qed

lemma patterns_lead: "\<forall>p\<in>set DOWNLOAD_LINK_PATTERNS. leads cn (regex p)"
  by (simp add: DOWNLOAD_LINK_PATTERNS_def rx_markdown_def rx_emoji_def rx_bold_def
      rx_keyword_def)
     (fast intro: leads_SeqR leads_SeqL leads_Grp leads_url)

lemma ci_prefix_id: "ci_prefix id p s \<Longrightarrow> ci_prefix cz p s"
  by (auto simp: ci_prefix_def)

lemma has_url_shape_id: "has_url_shape id s \<Longrightarrow> has_url_shape cz s"
  by (induction s) (auto simp: url_shape_at_def dest: ci_prefix_id)

lemma has_url_shape_drop: "has_url_shape cn (drop k s) \<Longrightarrow> has_url_shape cn s"
proof -
  assume "has_url_shape cn (drop k s)"
  then have "has_url_shape cn (take k s @ drop k s)" by (rule has_url_shape_append)
  then show ?thesis by simp
qed

lemma regex_exec_shape:
  assumes "leads cn r" "regex_exec cn r content lastIndex = Some (s, e, whole, g)"
  shows "has_url_shape cn content"
proof -
  from regex_execD [OF assms(2)] have
    "(e, drop e content, g) \<in> set (m cn r (s, drop s content, Map.empty))" by simp
  with assms(1) have "has_url_shape cn (drop s content)" unfolding leads_def by fastforce
  then show ?thesis by (rule has_url_shape_drop)
qed

lemma scan_loop_no_shape:
  assumes p: "p \<in> set DOWNLOAD_LINK_PATTERNS" and no: "\<not> has_url_shape cz content"
  shows "scan_loop cz p content lastIndex st = Some (Inr st)"
proof -
  have "regex_exec (flag_cn cz p) (regex p) content lastIndex = None"
  proof (rule ccontr)
    assume "regex_exec (flag_cn cz p) (regex p) content lastIndex \<noteq> None"
    then obtain s e whole g where
      ex: "regex_exec (flag_cn cz p) (regex p) content lastIndex = Some (s, e, whole, g)"
      by auto
    from p patterns_lead have "leads (flag_cn cz p) (regex p)" by blast
    from regex_exec_shape [OF this ex] have "has_url_shape (flag_cn cz p) content" .
    then have "has_url_shape cz content"
      by (cases "ignoreCase p") (auto simp: flag_cn_def dest: has_url_shape_id)
    with no show False by contradiction
  qed
  then show ?thesis by (subst scan_loop.simps) simp
qed

lemma scan_patterns_no_shape:
  assumes "set ps \<subseteq> set DOWNLOAD_LINK_PATTERNS" "\<not> has_url_shape cz content"
  shows "scan_patterns cz ps content st = Some (Inr st)"
  using assms(1)
proof (induction ps)
  case Nil
  show ?case by simp
next
  case (Cons p ps)
  then have "p \<in> set DOWNLOAD_LINK_PATTERNS" by simp
  from scan_loop_no_shape [OF this assms(2)] Cons show ?case by simp
qed

lemma parse_no_shape:
  "\<not> has_url_shape cz content \<Longrightarrow> parseDownloadLinks cz content = Some (Inr [])"
  using scan_patterns_no_shape [of DOWNLOAD_LINK_PATTERNS cz content "([], {})"]
  by (simp add: parseDownloadLinks_def discoverLinks_def sorted_patterns)

lemma process_match_skip:
  "g (urlIndex p) = None \<or> g (urlIndex p) = Some [] \<or>
   (\<exists>u'. g (urlIndex p) = Some u' \<and> \<not> prefix (asc ''http'') u') \<Longrightarrow>
   process_match p whole g st = Inr st"
  by (cases st) (auto simp: process_match_def)

section \<open>Removing the links\<close>

lemma replace_first_absent: "\<not> sublist pat s \<Longrightarrow> replace_first pat rep s = s"
proof (induction s)
  case Nil
  then show ?case by auto
next
  case (Cons c cs)
  from Cons.prems have np: "\<not> prefix pat (c # cs)" and ns: "\<not> sublist pat cs"
    by (auto simp: sublist_Cons_right)
  from Cons.IH [OF ns] np show ?case by simp
qed

lemma replace_first_occurs:
  assumes "pat \<noteq> []" "sublist pat s"
  shows "\<exists>pre post. s = pre @ pat @ post \<and> \<not> sublist pat (pre @ butlast pat) \<and>
           replace_first pat rep s = pre @ rep @ post"
  using assms(2)
proof (induction s)
  case Nil
  with assms(1) show ?case by simp
next
  case (Cons c cs)
  show ?case
  proof (cases "prefix pat (c # cs)")
    case True
    then obtain post where post: "c # cs = pat @ post" by (auto simp: prefix_def)
    have short: "\<not> sublist pat (butlast pat)"
    proof
      assume "sublist pat (butlast pat)"
      then have "length pat \<le> length (butlast pat)" by (rule sublist_length_le)
      moreover have "length (butlast pat) < length pat"
        using assms(1) by (cases pat rule: rev_cases) simp_all
      ultimately show False by linarith
    qed
    have "replace_first pat rep (c # cs) = rep @ drop (length pat) (c # cs)"
      using True by simp
    also have "\<dots> = rep @ post" by (simp only: post) simp
    finally have "replace_first pat rep (c # cs) = [] @ rep @ post" by simp
    with post short show ?thesis
      by (intro exI [of _ "[]"] exI [of _ post]) simp
  next
    case False
    with Cons.prems have "sublist pat cs" by (simp add: sublist_Cons_right)
    from Cons.IH [OF this] obtain pre post where ih: "cs = pre @ pat @ post"
      "\<not> sublist pat (pre @ butlast pat)" "replace_first pat rep cs = pre @ rep @ post"
      by blast
    have "\<not> prefix pat (c # pre @ butlast pat)"
    proof
      assume "prefix pat (c # pre @ butlast pat)"
      moreover have "prefix (c # pre @ butlast pat) (c # cs)"
      proof -
        have "pat = butlast pat @ [last pat]" using assms(1) by simp
        then have "c # cs = (c # pre @ butlast pat) @ ([last pat] @ post)"
          using ih(1) by (metis append.assoc append_Cons)
        then show ?thesis unfolding prefix_def by blast
      qed
      ultimately have "prefix pat (c # cs)" by (rule prefix_order.trans)
      with False show False by contradiction
    qed
    with ih(2) have first: "\<not> sublist pat ((c # pre) @ butlast pat)"
      by (simp add: sublist_Cons_right)
    have "replace_first pat rep (c # cs) = (c # pre) @ rep @ post"
      using False ih(3) by simp
    moreover have "c # cs = (c # pre) @ pat @ post" using ih(1) by simp
    ultimately show ?thesis using first by blast
  qed
qed

lemma strip_link_first:
  "fullMatch l \<noteq> [] \<Longrightarrow> sublist (fullMatch l) c \<Longrightarrow>
     \<exists>pre post. c = pre @ fullMatch l @ post \<and>
       \<not> sublist (fullMatch l) (pre @ butlast (fullMatch l)) \<and> strip_link l c = pre @ post"
  using replace_first_occurs [of "fullMatch l" c "[]"] by (simp add: strip_link_def)

lemma strip_link_absent: "\<not> sublist (fullMatch l) c \<Longrightarrow> strip_link l c = c"
  by (simp add: strip_link_def replace_first_absent)




section \<open>The parser of the chat view\<close>

lemma dashboard_loop_total:
  assumes ne: "nonempty r"
  shows "\<exists>res. dashboard_loop cn r content lastIndex links = Some res"
proof (induction "Suc (length content) - lastIndex" arbitrary: lastIndex links rule: less_induct)
  case less
  show ?case
  proof (cases "regex_exec cn r content lastIndex")
    case None
    then show ?thesis by (subst dashboard_loop.simps) simp
  next
    case (Some mt)
    obtain s e whole g where mt: "mt = (s, e, whole, g)" by (cases mt)
    from Some mt have ex: "regex_exec cn r content lastIndex = Some (s, e, whole, g)" by simp
    from regex_execD [OF ex] have "lastIndex \<le> s" "e \<le> length content" by simp_all
    moreover from regex_exec_progress [OF ne ex] have "s < e" .
    ultimately have "Suc (length content) - e < Suc (length content) - lastIndex" by linarith
    from less.hyps [OF this] obtain res where
      "dashboard_loop cn r content e (dashboard_match whole g links) = Some res" by blast
    then show ?thesis using ex by (subst dashboard_loop.simps) simp
  qed
qed

lemma dashboard_scan_total:
  assumes "\<forall>(r, i)\<in>set ps. nonempty r"
  shows "\<exists>res. dashboard_scan cz ps content links = Some res"
  using assms
proof (induction ps arbitrary: links)
  case Nil
  then show ?case by simp
next
  case (Cons p ps)
  obtain r i where p: "p = (r, i)" by (cases p)
  with Cons.prems have "nonempty r" by simp
  from dashboard_loop_total [OF this] obtain l1 where
    "dashboard_loop (if i then cz else id) r content 0 links = Some l1" by blast
  moreover from Cons.IH [of l1] Cons.prems obtain res where
    "dashboard_scan cz ps content l1 = Some res" by auto
  ultimately show ?case using p by simp
qed

lemma dashboard_patterns_nonempty: "\<forall>(r, i)\<in>set dashboard_patterns. nonempty r"
  by (simp add: dashboard_patterns_def rx_dashboard_markdown_def rx_dashboard_bold_def
      rx_dashboard_emoji_def rx_defs)

lemma parseDownloadLinks_dashboard_total:
  "\<exists>res. parseDownloadLinks_dashboard cz content = Some res"
  unfolding parseDownloadLinks_dashboard_def
  by (rule dashboard_scan_total [OF dashboard_patterns_nonempty])

section \<open>A scan that does not end\<close>

lemma exec_empty_pattern:
  "lastIndex \<le> length content \<Longrightarrow>
     regex_exec cn Eps content lastIndex = Some (lastIndex, lastIndex, [], Map.empty)"
  by (simp add: regex_exec_def exec_from.simps)

lemma scan_loop_diverges:
  assumes "lastIndex \<le> length content"
  shows "scan_loop cz empty_pattern content lastIndex st = None"
proof (rule ccontr)
  assume "scan_loop cz empty_pattern content lastIndex st \<noteq> None"
  then obtain y where y: "scan_loop cz empty_pattern content lastIndex st = Some y" by auto
  have "empty_pattern \<noteq> empty_pattern \<or> length content < lastIndex"
  proof (rule scan_loop.raw_induct
      [where P = "\<lambda>cz p content li st y. p \<noteq> empty_pattern \<or> length content < li", OF _ y])
    fix loop :: "(cu \<Rightarrow> cu) \<Rightarrow> pattern \<Rightarrow> jstr \<Rightarrow> nat \<Rightarrow> pstate \<Rightarrow> (error + pstate) option"
    fix cz p content li st res
    assume IH: "\<And>cz p content li st y. loop cz p content li st = Some y \<Longrightarrow>
        p \<noteq> empty_pattern \<or> length content < li"
      and F: "(case regex_exec (flag_cn cz p) (regex p) content li of
                 None \<Rightarrow> Some (Inr st)
               | Some (s, e, whole, g) \<Rightarrow>
                   (case process_match p whole g st of
                      Inl err \<Rightarrow> Some (Inl err)
                    | Inr st' \<Rightarrow> loop cz p content e st')) = Some res"
    show "p \<noteq> empty_pattern \<or> length content < li"
    proof (rule ccontr)
      assume "\<not> (p \<noteq> empty_pattern \<or> length content < li)"
      then have pe: "p = empty_pattern" and le: "li \<le> length content" by simp_all
      have "regex_exec (flag_cn cz p) (regex p) content li = Some (li, li, [], Map.empty)"
        using le by (simp add: pe empty_pattern_def exec_empty_pattern)
      moreover have "process_match p [] Map.empty st = Inr st"
        by (cases st) (simp add: process_match_def)
      ultimately have "loop cz p content li st = Some res" using F by simp
      from IH [OF this] pe le show False by simp
    qed
  qed
  with assms show False by simp
qed

section \<open>Decimal numerals\<close>

lemma read_nat_snoc: "read_nat (xs @ [d]) = 10 * read_nat xs + (d - 48)"
  by (simp add: read_nat_def)

lemma show_nat_decimal: "read_nat (show_nat n) = n \<and> list_all is_digit (show_nat n)"
proof (induction n rule: show_nat.induct)
  case (1 n)
  show ?case
  proof (cases "n < 10")
    case True
    then show ?thesis
      by (subst (1 2) show_nat.simps) (simp add: read_nat_def is_digit_def)
  next
    case False
    from 1 [OF False] have ih: "read_nat (show_nat (n div 10)) = n div 10"
      "list_all is_digit (show_nat (n div 10))" by simp_all
    have eq: "show_nat n = show_nat (n div 10) @ [48 + n mod 10]"
      using False by (subst show_nat.simps) simp
    have "read_nat (show_nat n) = 10 * (n div 10) + n mod 10"
      unfolding eq read_nat_snoc ih(1) by simp
    moreover have "list_all is_digit (show_nat n)"
      unfolding eq using ih(2) by (simp add: is_digit_def)
    ultimately show ?thesis by simp
  qed
qed

section \<open>The file name of the header\<close>

lemma id_eq_iff: "(id x = id y) = (x = y)"
  by (simp only: id_apply)

lemma concat_map_empty: "(\<And>x. x \<in> set xs \<Longrightarrow> f x = []) \<Longrightarrow> concat (map f xs) = []"
  by (induction xs) auto

lemma m_seqs_Cons: "m cn (seqs (r # rs)) x = concat (map (m cn (seqs rs)) (m cn r x))"
proof (cases rs)
  case Nil
  have "m cn Eps = (\<lambda>y. [y])" by (rule ext) simp
  then have "concat (map (m cn Eps) (m cn r x)) = m cn r x"
    by (simp add: concat_map_singleton)
  with Nil show ?thesis by simp
next
  case (Cons a as)
  then show ?thesis by simp
qed

lemma m_lit_id:
  "m id (lit s) (i, rest, c) =
     (if prefix s rest then [(i + length s, drop (length s) rest, c)] else [])"
proof (induction s arbitrary: i rest)
  case Nil
  show ?case by (simp add: lit_def)
next
  case (Cons a s)
  have eq: "m id (lit (a # s)) (i, rest, c) =
        concat (map (m id (lit s)) (m id (Chr a) (i, rest, c)))"
    unfolding lit_def by (simp only: list.map m_seqs_Cons)
  show ?case unfolding eq
    by (cases rest) (simp_all add: Cons.IH id_eq_iff del: id_apply)
qed

lemma m_Chr_head:
  "m id (seqs (Chr a # rs)) (i, rest, c) =
     (case rest of [] \<Rightarrow> [] | d # v \<Rightarrow> if d = a then m id (seqs rs) (Suc i, v, c) else [])"
  by (simp only: m_seqs_Cons) (simp add: id_eq_iff del: id_apply split: list.splits)

lemma m_star_then_Chr:
  assumes "single r" "\<not> accepts id r a"
  shows "m id (seqs (star r # Chr a # rs)) (i, rest, c) =
           m id (seqs (Chr a # rs))
             (i + length (takeWhile (accepts id r) rest), dropWhile (accepts id r) rest, c)"
proof -
  let ?P = "accepts id r"
  let ?n = "length (takeWhile ?P rest)"
  let ?K = "m id (seqs (Chr a # rs))"
  let ?g = "\<lambda>j. (i + j, drop j rest, c)"
  have st: "m id (star r) (i, rest, c) = map ?g (rev [0..<Suc ?n])"
    by (rule m_Rep_single [OF assms(1)])
  have dead: "?K (?g j) = []" if "j \<in> set (rev [0..<?n])" for j
  proof -
    from that have j: "j < ?n" by simp
    then have jl: "j < length rest" using length_takeWhile_le [of ?P rest] by linarith
    have "takeWhile ?P rest ! j = rest ! j" using j by (rule takeWhile_nth)
    moreover have "?P (takeWhile ?P rest ! j)"
      using j by (metis nth_mem set_takeWhileD)
    ultimately have "?P (rest ! j)" by simp
    with assms(2) have ne: "rest ! j \<noteq> a" by auto
    have "drop j rest = rest ! j # drop (Suc j) rest" using jl by (rule Cons_nth_drop_Suc [symmetric])
    then show ?thesis using ne by (simp only: m_Chr_head) (simp del: id_apply)
  qed
  have "m id (seqs (star r # Chr a # rs)) (i, rest, c) = concat (map ?K (map ?g (rev [0..<Suc ?n])))"
    by (simp only: m_seqs_Cons [of id "star r"] st)
  also have "\<dots> = ?K (?g ?n) @ concat (map (\<lambda>j. ?K (?g j)) (rev [0..<?n]))"
    by (simp add: comp_def)
  also have "concat (map (\<lambda>j. ?K (?g j)) (rev [0..<?n])) = []"
    by (rule concat_map_empty) (rule dead)
  finally show ?thesis by (simp only: dropWhile_as_drop append_Nil2)
qed

text \<open>The lazy quantifier over the dot, followed by the back reference to a one-unit group.\<close>

lemma m_lazy_dot:
  "m id (Rep 0 None False Dot) (i, w, c) =
     (i, w, c) # (case w of [] \<Rightarrow> []
                  | d # w' \<Rightarrow> if is_line_terminator d then []
                              else m id (Rep 0 None False Dot) (Suc i, w', c))"
  by (subst m.simps(6)) (simp del: id_apply split: list.splits)

lemma m_bref_unit:
  "c 2 = Some [q] \<Longrightarrow> m id (Bref 2) (i, w, c) =
     (case w of [] \<Rightarrow> [] | d # w' \<Rightarrow> if d = q then [(Suc i, w', c)] else [])"
  by (cases w) (auto simp add: id_eq_iff simp del: id_apply)

lemma m_lazy_bref_step:
  "m id (seqs [Rep 0 None False Dot, Bref 2]) (i, w, c) =
     m id (Bref 2) (i, w, c) @
     (case w of [] \<Rightarrow> []
      | d # w' \<Rightarrow> if is_line_terminator d then []
                  else m id (seqs [Rep 0 None False Dot, Bref 2]) (Suc i, w', c))"
proof -
  have "m id (seqs [Rep 0 None False Dot, Bref 2]) (i, w, c) =
        concat (map (m id (Bref 2)) (m id (Rep 0 None False Dot) (i, w, c)))"
    by simp
  also have "\<dots> = m id (Bref 2) (i, w, c) @
     concat (map (m id (Bref 2))
       (case w of [] \<Rightarrow> []
        | d # w' \<Rightarrow> if is_line_terminator d then []
                    else m id (Rep 0 None False Dot) (Suc i, w', c)))"
    by (subst m_lazy_dot) (simp del: m.simps)
  finally show ?thesis by (simp del: m.simps(8) id_apply split: list.splits)
qed

lemma m_lazy_bref:
  assumes "c 2 = Some [q]"
  shows "case closing q w of
           None \<Rightarrow> m id (seqs [Rep 0 None False Dot, Bref 2]) (i, w, c) = []
         | Some mid \<Rightarrow>
             (\<exists>ys. m id (seqs [Rep 0 None False Dot, Bref 2]) (i, w, c) =
                     (i + length mid + 2 - 1, drop (length mid + 1) w, c) # ys) \<and>
             take (length mid + 1) w = mid @ [q]"
proof (induction w arbitrary: i)
  case Nil
  show ?case by (subst m_lazy_bref_step) (simp add: assms)
next
  case (Cons d w')
  show ?case
  proof (cases "d = q")
    case True
    then show ?thesis by (subst m_lazy_bref_step) (simp add: assms)
  next
    case dq: False
    show ?thesis
    proof (cases "is_line_terminator d")
      case True
      with dq show ?thesis by (subst m_lazy_bref_step) (simp add: assms)
    next
      case False
      have step: "m id (seqs [Rep 0 None False Dot, Bref 2]) (i, d # w', c) =
                  m id (seqs [Rep 0 None False Dot, Bref 2]) (Suc i, w', c)"
        using dq False by (subst m_lazy_bref_step) (simp add: assms)
      show ?thesis
      proof (cases "closing q w'")
        case None
        with Cons [of "Suc i"] dq False show ?thesis
          unfolding step by (simp del: m.simps seqs.simps)
      next
        case (Some mid)
        with Cons [of "Suc i"] dq False show ?thesis
          unfolding step by (simp del: m.simps seqs.simps)
      qed
    qed
  qed
qed

lemma accepts_name_unit:
  "accepts id (Cls True [ci CHR '';'', ci CHR ''='', CUnit 10]) c = name_unit c"
  by (auto simp: name_unit_def ci_def)

lemma accepts_value_unit:
  "accepts id (Cls True [ci CHR '';'', CUnit 10]) c = (c \<noteq> 59 \<and> c \<noteq> 10)"
  by (auto simp: ci_def)

lemma m_quote_group:
  "m id (Grp 2 (Cls False [CUnit 39, CUnit 34])) (i, v, c) =
     (case v of [] \<Rightarrow> []
      | q # w \<Rightarrow> if q = 39 \<or> q = 34 then [(Suc i, w, c(2 \<mapsto> [q]))] else [])"
  by (auto split: list.splits)

lemma m_quoted:
  "m id (seqs [Grp 2 (Cls False [CUnit 39, CUnit 34]), Rep 0 None False Dot, Bref 2]) (i, v, c) =
     (case v of [] \<Rightarrow> []
      | q # w \<Rightarrow> if q = 39 \<or> q = 34
                  then m id (seqs [Rep 0 None False Dot, Bref 2]) (Suc i, w, c(2 \<mapsto> [q]))
                  else [])"
  by (simp only: m_seqs_Cons [of id "Grp 2 (Cls False [CUnit 39, CUnit 34])"] m_quote_group)
     (simp split: list.splits del: m.simps seqs.simps)

lemma m_unquoted:
  "\<exists>ys. m id (star (Cls True [ci CHR '';'', CUnit 10])) (i, v, c) =
     (i + length (takeWhile (\<lambda>c. c \<noteq> 59 \<and> c \<noteq> 10) v),
      drop (length (takeWhile (\<lambda>c. c \<noteq> 59 \<and> c \<noteq> 10) v)) v, c) # ys"
proof -
  have s: "single (Cls True [ci CHR '';'', CUnit 10])" by simp
  have a: "accepts id (Cls True [ci CHR '';'', CUnit 10]) = (\<lambda>c. c \<noteq> 59 \<and> c \<noteq> 10)"
    by (rule ext) (rule accepts_value_unit)
  show ?thesis
    unfolding m_Rep_single [OF s] a by simp
qed

lemma m_value:
  "\<exists>j rest' g ys.
     m id (Grp 1 (Alt (seqs [Grp 2 (Cls False [CUnit 39, CUnit 34]), Rep 0 None False Dot, Bref 2])
                      (star (Cls True [ci CHR '';'', CUnit 10])))) (i, v, c) = (j, rest', g) # ys \<and>
     g 1 = Some (header_value v)"
proof -
  let ?Q = "seqs [Grp 2 (Cls False [CUnit 39, CUnit 34]), Rep 0 None False Dot, Bref 2]"
  let ?U = "star (Cls True [ci CHR '';'', CUnit 10])"
  let ?f = "\<lambda>(j, rest', caps'). (j, rest', caps'(1 \<mapsto> take (j - i) v))"
  let ?n = "length (takeWhile (\<lambda>c. c \<noteq> 59 \<and> c \<noteq> 10) v)"
  have g: "m id (Grp 1 (Alt ?Q ?U)) (i, v, c) = map ?f (m id ?Q (i, v, c) @ m id ?U (i, v, c))"
    by (simp only: m.simps)
  obtain ys where u: "m id ?U (i, v, c) = (i + ?n, drop ?n v, c) # ys"
    using m_unquoted by blast
  have un: "take ?n v = takeWhile (\<lambda>c. c \<noteq> 59 \<and> c \<noteq> 10) v"
    by (induction v) auto
  consider (plain) "m id ?Q (i, v, c) = []"
             "header_value v = takeWhile (\<lambda>c. c \<noteq> 59 \<and> c \<noteq> 10) v"
    | (quoted) q w mid zs where "v = q # w" "q = 39 \<or> q = 34" "closing q w = Some mid"
        "m id ?Q (i, v, c) = (Suc i + length mid + 2 - 1, drop (length mid + 1) w, c(2 \<mapsto> [q])) # zs"
        "take (length mid + 1) w = mid @ [q]"
  proof (cases v)
    case Nil
    then have "m id ?Q (i, v, c) = []" by (simp only: m_quoted list.case)
    moreover have "header_value v = takeWhile (\<lambda>c. c \<noteq> 59 \<and> c \<noteq> 10) v"
      using Nil by (simp add: header_value_def)
    ultimately show ?thesis by (rule plain)
  next
    case (Cons q w)
    show ?thesis
    proof (cases "q = 39 \<or> q = 34")
      case False
      then have "m id ?Q (i, v, c) = []" unfolding Cons by (simp only: m_quoted list.case if_False)
      moreover have "header_value v = takeWhile (\<lambda>c. c \<noteq> 59 \<and> c \<noteq> 10) v"
        using Cons False by (simp add: header_value_def)
      ultimately show ?thesis by (rule plain)
    next
      case True
      have c2: "(c(2 \<mapsto> [q])) 2 = Some [q]" by simp
      have q: "m id ?Q (i, v, c) = m id (seqs [Rep 0 None False Dot, Bref 2]) (Suc i, w, c(2 \<mapsto> [q]))"
        unfolding Cons using True by (simp only: m_quoted list.case if_True)
      show ?thesis
      proof (cases "closing q w")
        case None
        with m_lazy_bref [where c = "c(2 \<mapsto> [q])" and q = q and w = w and i = "Suc i", OF c2] have "m id ?Q (i, v, c) = []"
          unfolding q by (simp del: m.simps seqs.simps)
        moreover have "header_value v = takeWhile (\<lambda>c. c \<noteq> 59 \<and> c \<noteq> 10) v"
          using Cons True None by (simp add: header_value_def)
        ultimately show ?thesis by (rule plain)
      next
        case (Some mid)
        with m_lazy_bref [where c = "c(2 \<mapsto> [q])" and q = q and w = w and i = "Suc i", OF c2] obtain zs where
          "m id ?Q (i, v, c) = (Suc i + length mid + 2 - 1, drop (length mid + 1) w, c(2 \<mapsto> [q])) # zs"
          "take (length mid + 1) w = mid @ [q]"
          unfolding q by (auto simp del: m.simps seqs.simps)
        with Cons True Some show ?thesis by (rule quoted)
      qed
    qed
  qed
  then show ?thesis
  proof cases
    case plain
    show ?thesis unfolding g plain(1) u plain(2) by (simp add: un)
  next
    case quoted
    have hv: "header_value v = q # mid @ [q]"
      using quoted(1,2,3) by (simp add: header_value_def)
    have "take (Suc i + length mid + 2 - 1 - i) v = q # mid @ [q]"
      using quoted(1,5) by simp
    then show ?thesis unfolding g quoted(4) hv by simp
  qed
qed

lemma m_disposition:
  "m id rx_disposition (i, rest, c) =
     (if prefix (asc ''filename'') rest then
        (case dropWhile name_unit (drop 8 rest) of
           [] \<Rightarrow> []
         | d # v \<Rightarrow>
             if d = 61
             then m id (Grp 1 (Alt (seqs [Grp 2 (Cls False [CUnit 39, CUnit 34]),
                                          Rep 0 None False Dot, Bref 2])
                                   (star (Cls True [ci CHR '';'', CUnit 10]))))
                    (Suc (i + 8 + length (takeWhile name_unit (drop 8 rest))), v, c)
             else [])
      else [])"
proof -
  let ?N = "Cls True [ci CHR '';'', ci CHR ''='', CUnit 10]"
  let ?G = "Grp 1 (Alt (seqs [Grp 2 (Cls False [CUnit 39, CUnit 34]),
                                          Rep 0 None False Dot, Bref 2])
                                   (star (Cls True [ci CHR '';'', CUnit 10])))"
  have s: "single ?N" by simp
  have n: "\<not> accepts id ?N 61" by (simp only: accepts_name_unit) (simp add: name_unit_def)
  have a: "accepts id ?N = name_unit" by (rule ext) (rule accepts_name_unit)
  have l: "length (asc ''filename'') = 8" by (simp add: asc_def)
  have tail: "m id (seqs [star ?N, Chr 61, ?G]) (j, r, c) =
      (case dropWhile name_unit r of [] \<Rightarrow> []
       | d # v \<Rightarrow> if d = 61 then m id ?G (Suc (j + length (takeWhile name_unit r)), v, c) else [])"
    for j r
  proof -
    have t1: "m id (seqs [star ?N, Chr 61, ?G]) (j, r, c) =
          m id (seqs [Chr 61, ?G]) (j + length (takeWhile name_unit r), dropWhile name_unit r, c)"
      unfolding m_star_then_Chr [OF s n] a ..
    have t2: "m id (seqs [Chr 61, ?G]) (k, r', c) =
          (case r' of [] \<Rightarrow> [] | d # v \<Rightarrow> if d = 61 then m id ?G (Suc k, v, c) else [])"
      for k r'
      unfolding m_Chr_head by (simp only: seqs.simps)
    show ?thesis by (simp only: t1 t2)
  qed
  have r: "rx_disposition = seqs [lit (asc ''filename''), star ?N, Chr 61, ?G]"
    unfolding rx_disposition_def ch_def by simp
  have "m id rx_disposition (i, rest, c) =
        concat (map (m id (seqs [star ?N, Chr 61, ?G])) (m id (lit (asc ''filename'')) (i, rest, c)))"
    unfolding r by (rule m_seqs_Cons)
  also have "\<dots> = (if prefix (asc ''filename'') rest
                     then m id (seqs [star ?N, Chr 61, ?G]) (i + 8, drop 8 rest, c) else [])"
    unfolding m_lit_id l by (simp del: m.simps seqs.simps)
  finally show ?thesis unfolding tail .
qed

lemma exec_disposition:
  "(case exec_from id rx_disposition i rest of
      None \<Rightarrow> None | Some (s, e, whole, g) \<Rightarrow> truthy (g 1)) = header_token rest"
proof (induction rest arbitrary: i)
  case Nil
  have "m id rx_disposition (i, [], Map.empty) = []"
    unfolding m_disposition by (simp add: asc_def)
  then show ?case by (subst exec_from.simps) simp
next
  case (Cons a rest)
  let ?r = "a # rest"
  show ?case
  proof (cases "prefix (asc ''filename'') ?r \<and>
                (\<exists>v. dropWhile name_unit (drop 8 ?r) = 61 # v)")
    case True
    then obtain v where p: "prefix (asc ''filename'') ?r"
      and d: "dropWhile name_unit (drop 8 ?r) = 61 # v" by blast
    obtain j rest' g ys where
      mm: "m id rx_disposition (i, ?r, Map.empty) = (j, rest', g) # ys"
      and g1: "g 1 = Some (header_value v)"
      unfolding m_disposition using p d m_value by (simp del: m.simps) blast
    have e: "exec_from id rx_disposition i ?r = Some (i, j, take (j - i) ?r, g)"
      by (subst exec_from.simps) (simp only: mm list.case prod.case)
    have h: "header_token ?r = truthy (Some (header_value v))"
      using p d by (simp del: truthy.simps)
    show ?thesis unfolding e h by (simp only: option.case prod.case g1)
  next
    case False
    then have mm: "m id rx_disposition (i, ?r, Map.empty) = []"
      unfolding m_disposition by (auto split: list.splits)
    have e: "exec_from id rx_disposition i ?r = exec_from id rx_disposition (Suc i) rest"
      by (subst exec_from.simps) (simp only: mm list.case)
    have h: "header_token ?r = header_token rest"
      using False by (auto split: list.splits)
    show ?thesis unfolding e h by (rule Cons)
  qed
qed

lemma disposition_token_eq: "disposition_token h = header_token h"
  unfolding disposition_token_def regex_exec_def using exec_disposition [of 0 h]
  by (simp del: id_apply)

section \<open>The first occurrence\<close>






section \<open>Evaluation of concrete inputs\<close>

lemmas rx_eval = regex_exec_def exec_from.simps m.simps(6) Let_def space_units_def
  is_line_terminator_def item_has.simps replace_all_def replace_from.simps is_space_def trim_def

lemmas parse_eval = parseDownloadLinks_def discoverLinks_def sorted_patterns
  DOWNLOAD_LINK_PATTERNS_def scan_loop.simps process_match_def link_text_def flag_cn_def
  or99_def canonicalize_def

lemma token_report:
  "disposition_token header_report = Some ([34] @ asc ''report.pdf'' @ [34])"
  by (simp add: disposition_token_def header_report_def rx_disposition_def lit_def ch_def ci_def
      asc_def rx_eval)

lemma token_apostrophe:
  "disposition_token header_apostrophe = Some ([34] @ asc ''it'' @ [39] @ asc ''s.pdf'' @ [34])"
  by (simp add: disposition_token_def header_apostrophe_def rx_disposition_def lit_def ch_def ci_def
      asc_def rx_eval)

lemma show_nat_404: "show_nat 404 = asc ''404''"
  by (simp add: show_nat.simps [of 404] show_nat.simps [of 40] show_nat.simps [of 4] asc_def)

lemma clean_vacation:
  "cleanName toLowerCase_az label_vacation = asc ''mezuniyyet_'' @ [601] @ asc ''rizesi''"
  by (simp add: cleanName_def label_vacation_def toLowerCase_az_def toLowerCase_unit_def
      rx_unsafe_def rx_space_run_def rx_underscores_def rx_edge_underscore_def ch_def asc_def
      rx_eval)

lemma clean_bangs: "cleanName toLowerCase_az (asc ''!!!'') = []"
  by (simp add: cleanName_def toLowerCase_az_def toLowerCase_unit_def
      rx_unsafe_def rx_space_run_def rx_underscores_def rx_edge_underscore_def ch_def asc_def
      rx_eval)

lemma no_shape_example: "\<not> has_url_shape canonicalize (asc ''see the attached file'')"
  by (simp add: asc_def url_shape_at_def ci_prefix_def canonicalize_def)



lemma header_token_report: "header_token header_report = Some ([34] @ asc ''report.pdf'' @ [34])"
  by (simp only: disposition_token_eq [symmetric] token_report)

lemma header_token_nested: "header_token header_nested = Some ([34] @ asc ''other.bin'' @ [34])"
  by (simp add: header_nested_def asc_def header_value_def name_unit_def is_line_terminator_def)


lemmas dashboard_eval = parseDownloadLinks_dashboard_def dashboard_patterns_def
  dashboard_loop.simps dashboard_match_def rx_dashboard_markdown_def rx_dashboard_bold_def
  rx_dashboard_emoji_def canonicalize_def

lemma dashboard_repeated:
  "parseDownloadLinks_dashboard canonicalize text_repeated =
     Some [\<lparr>dtext = Some (asc ''a''), durl = asc ''https://x.test/a.docx'',
            dfullMatch = asc ''[a](https://x.test/a.docx)'', dtype = dashboard_markdown\<rparr>,
           \<lparr>dtext = Some (asc ''b''), durl = asc ''https://x.test/a.docx'',
            dfullMatch = asc ''[b](https://x.test/a.docx)'', dtype = dashboard_markdown\<rparr>]"
  by (simp add: text_repeated_def dashboard_eval rx_eval rx_defs)

section \<open>The claims\<close>

text \<open>
  C9. \<open>parseDownloadLinks\<close> returns on every input text, whatever the case folding of the
  runtime: every pattern of the fixed set matches only non-empty text, so each \<open>exec\<close> of the
  scan starts its match at or after \<open>lastIndex\<close> and ends it strictly later, inside the text.
  The copy of the parser in the chat view returns on every input as well.
\<close>

theorem parseDownloadLinks_terminates:
  "(\<exists>res. parseDownloadLinks cz content = Some res) \<and>
   (\<forall>p\<in>set DOWNLOAD_LINK_PATTERNS. \<forall>lastIndex s e whole g.
      regex_exec (flag_cn cz p) (regex p) content lastIndex = Some (s, e, whole, g) \<longrightarrow>
      lastIndex \<le> s \<and> s < e \<and> e \<le> length content) \<and>
   (\<exists>res. parseDownloadLinks_dashboard cz content = Some res)"
proof (intro conjI)
  from scan_patterns_total [OF patterns_nonempty] obtain res where
    "scan_patterns cz DOWNLOAD_LINK_PATTERNS content ([], {}) = Some res" by blast
  then show "\<exists>res. parseDownloadLinks cz content = Some res"
    by (cases res) (auto simp: parseDownloadLinks_def discoverLinks_def sorted_patterns)
next
  show "\<forall>p\<in>set DOWNLOAD_LINK_PATTERNS. \<forall>lastIndex s e whole g.
      regex_exec (flag_cn cz p) (regex p) content lastIndex = Some (s, e, whole, g) \<longrightarrow>
      lastIndex \<le> s \<and> s < e \<and> e \<le> length content"
  proof (intro ballI allI impI)
    fix p lastIndex s e whole g
    assume p: "p \<in> set DOWNLOAD_LINK_PATTERNS"
      and ex: "regex_exec (flag_cn cz p) (regex p) content lastIndex = Some (s, e, whole, g)"
    from p patterns_nonempty have "nonempty (regex p)" by blast
    from regex_exec_progress [OF this ex] regex_execD [OF ex]
    show "lastIndex \<le> s \<and> s < e \<and> e \<le> length content" by simp
  qed
next
  show "\<exists>res. parseDownloadLinks_dashboard cz content = Some res"
    by (rule parseDownloadLinks_dashboard_total)
qed

theorem parseDownloadLinks_terminates_witness:
  "hd DOWNLOAD_LINK_PATTERNS \<in> set DOWNLOAD_LINK_PATTERNS \<and>
   regex_exec (flag_cn id (hd DOWNLOAD_LINK_PATTERNS)) (regex (hd DOWNLOAD_LINK_PATTERNS))
     (asc ''x [a](http://b)'') 0 =
     Some (2, 15, asc ''[a](http://b)'', [1 \<mapsto> asc ''a'', 2 \<mapsto> asc ''http://b'']) \<and>
   (0::nat) \<le> 2 \<and> (2::nat) < 15 \<and> 15 \<le> length (asc ''x [a](http://b)'') \<and>
   (\<exists>res. parseDownloadLinks id (asc ''x [a](http://b)'') = Some res)"
proof -
  have p: "hd DOWNLOAD_LINK_PATTERNS \<in> set DOWNLOAD_LINK_PATTERNS"
    by (simp add: DOWNLOAD_LINK_PATTERNS_def)
  have ex: "regex_exec (flag_cn id (hd DOWNLOAD_LINK_PATTERNS)) (regex (hd DOWNLOAD_LINK_PATTERNS))
     (asc ''x [a](http://b)'') 0 =
     Some (2, 15, asc ''[a](http://b)'', [1 \<mapsto> asc ''a'', 2 \<mapsto> asc ''http://b''])"
    by (simp add: DOWNLOAD_LINK_PATTERNS_def flag_cn_def rx_eval rx_defs)
  from parseDownloadLinks_terminates [of id "asc ''x [a](http://b)''"] p ex
  show ?thesis by (simp add: asc_def)
qed

text \<open>
  C10. Whatever the text and the links, the string returned by \<open>removeDownloadLinks\<close> has no
  two neighbouring white-space units: the last pass matches pairs of newlines too, so no blank
  line survives, and two paragraphs end up separated by one space.
\<close>

theorem removeDownloadLinks_no_blank_line:
  "\<not> adjacent is_space (removeDownloadLinks content links) \<and>
   \<not> sublist [10, 10] (removeDownloadLinks content links) \<and>
   removeDownloadLinks (asc ''a'' @ [10, 10] @ asc ''b'') [] = asc ''a b''"
proof (intro conjI)
  show na: "\<not> adjacent is_space (removeDownloadLinks content links)"
    by (rule removeDownloadLinks_no_adjacent)
  have "is_space 10" by (simp add: is_space_def space_units_def)
  then show "\<not> sublist [10, 10] (removeDownloadLinks content links)"
    using na adjacent_sublist [of is_space 10 10] by blast
  show "removeDownloadLinks (asc ''a'' @ [10, 10] @ asc ''b'') [] = asc ''a b''"
    by (simp add: removeDownloadLinks_def rx_newlines_def rx_spaces_def asc_def rx_eval)
qed

text \<open>
  C7 (as stated, refuted). A 404 response: what \<open>downloadFromUrl\<close> throws is a plain
  \<open>Error\<close>, not an \<open>HttpError\<close>; it has a message and no field for the status, which
  appears only inside the text of the message.
\<close>

theorem downloadFromUrl_plain_error:
  "downloadFromUrl (serving response_404) (asc ''https://x.test/files/a.docx'') None =
     ([Fetched (asc ''https://x.test/files/a.docx'')],
      Inl (Error ([89, 252, 107, 108, 601, 109, 601, 32, 120, 601, 116, 97, 115, 305, 58, 32] @
                  asc ''Download failed: 404 Not Found''))) \<and>
   error_name (Error ([89, 252, 107, 108, 601, 109, 601, 32, 120, 601, 116, 97, 115, 305, 58, 32] @
                      asc ''Download failed: 404 Not Found'')) = asc ''Error'' \<and>
   asc ''Error'' \<noteq> asc ''HttpError''"
  by (simp add: downloadFromUrl_def serving_def response_404_def wrap_error_def show_nat_404
      yukle_def asc_def)

text \<open>
  C7 (amended). When the response is not ok, \<open>downloadFromUrl\<close> fails with a plain
  \<open>Error\<close> whose message is the fixed prefix followed by \<open>Download failed: \<close>, the
  status in decimal, a space and the status text of the server (a 404 gives
  \<open>Download failed: 404 Not Found\<close> behind the prefix). A rejected request, a rejected
  body read and, where the name has to come from it, a URL that does not parse fail with the
  same prefix before their own message. Every run issues exactly one request, so nothing is
  retried; a run ends either in such an error handed to the caller, with nothing saved, or in
  \<open>true\<close> after one save.
\<close>

theorem downloadFromUrl_error_message:
  "(fetch e u = Resolved r \<and> \<not> ok r \<longrightarrow>
      downloadFromUrl e u filename =
        ([Fetched u],
         Inl (Error ([89, 252, 107, 108, 601, 109, 601, 32, 120, 601, 116, 97, 115, 305, 58, 32] @
                     asc ''Download failed: '' @ show_nat (status r) @ asc '' '' @
                     statusText r)))) \<and>
   read_nat (show_nat n) = n \<and> list_all is_digit (show_nat n) \<and>
   (fetch e u = Rejected msg \<longrightarrow>
      downloadFromUrl e u filename =
        ([Fetched u],
         Inl (Error ([89, 252, 107, 108, 601, 109, 601, 32, 120, 601, 116, 97, 115, 305, 58, 32] @
                     msg)))) \<and>
   (fetch e u = Resolved r \<and> ok r \<and> blob r = Inl msg \<longrightarrow>
      downloadFromUrl e u filename =
        ([Fetched u],
         Inl (Error ([89, 252, 107, 108, 601, 109, 601, 32, 120, 601, 116, 97, 115, 305, 58, 32] @
                     msg)))) \<and>
   (fetch e u = Resolved r \<and> ok r \<and> blob r = Inr bytes \<and> truthy filename = None \<and>
    truthy (disposition_filename (contentDisposition r)) = None \<and> pathname e u = Inl msg \<longrightarrow>
      downloadFromUrl e u filename =
        ([Fetched u],
         Inl (Error ([89, 252, 107, 108, 601, 109, 601, 32, 120, 601, 116, 97, 115, 305, 58, 32] @
                     msg)))) \<and>
   length (filter is_fetch (fst (downloadFromUrl e u filename))) = 1 \<and>
   ((\<exists>m. snd (downloadFromUrl e u filename) = Inl (Error m)) \<longleftrightarrow>
      fst (downloadFromUrl e u filename) = [Fetched u]) \<and>
   ((\<exists>m. snd (downloadFromUrl e u filename) = Inl (Error m)) \<or>
      (snd (downloadFromUrl e u filename) = Inr True \<and>
       (\<exists>bytes name. fst (downloadFromUrl e u filename) =
          [Fetched u, Saved bytes name, CleanupScheduled]))) \<and>
   downloadFromUrl (serving response_404) (asc ''https://x.test/files/a.docx'') None =
     ([Fetched (asc ''https://x.test/files/a.docx'')],
      Inl (Error ([89, 252, 107, 108, 601, 109, 601, 32, 120, 601, 116, 97, 115, 305, 58, 32] @
                  asc ''Download failed: 404 Not Found'')))"
proof -
  have w: "wrap_error m =
      Error ([89, 252, 107, 108, 601, 109, 601, 32, 120, 601, 116, 97, 115, 305, 58, 32] @ m)" for m
    by (simp add: wrap_error_def yukle_def asc_def)
  have ex: "downloadFromUrl (serving response_404) (asc ''https://x.test/files/a.docx'') None =
     ([Fetched (asc ''https://x.test/files/a.docx'')],
      Inl (Error ([89, 252, 107, 108, 601, 109, 601, 32, 120, 601, 116, 97, 115, 305, 58, 32] @
                  asc ''Download failed: 404 Not Found'')))"
    by (simp add: downloadFromUrl_def serving_def response_404_def w show_nat_404 asc_def)
  have gen: "(\<exists>m. snd (downloadFromUrl e u filename) = Inl (Error m)) \<longleftrightarrow>
      fst (downloadFromUrl e u filename) = [Fetched u]"
    by (auto simp: downloadFromUrl_def w split: fetched.splits sum.splits)
  have alt: "(\<exists>m. snd (downloadFromUrl e u filename) = Inl (Error m)) \<or>
      (snd (downloadFromUrl e u filename) = Inr True \<and>
       (\<exists>bytes name. fst (downloadFromUrl e u filename) =
          [Fetched u, Saved bytes name, CleanupScheduled]))"
    by (auto simp: downloadFromUrl_def w split: fetched.splits sum.splits)
  have one: "length (filter is_fetch (fst (downloadFromUrl e u filename))) = 1"
    by (auto simp: downloadFromUrl_def split: fetched.splits sum.splits)
  show ?thesis
    using show_nat_decimal [of n] ex gen alt one
    by (simp add: downloadFromUrl_def resolve_filename_def w)
qed

theorem downloadFromUrl_error_message_witness:
  "downloadFromUrl (serving response_404) (asc ''https://x.test/files/a.docx'') (Some (asc ''a.docx'')) =
     ([Fetched (asc ''https://x.test/files/a.docx'')],
      Inl (Error ([89, 252, 107, 108, 601, 109, 601, 32, 120, 601, 116, 97, 115, 305, 58, 32] @
                  asc ''Download failed: 404 Not Found''))) \<and>
   read_nat (asc ''404'') = 404"
proof -
  have f: "fetch (serving response_404) (asc ''https://x.test/files/a.docx'') = Resolved response_404"
    by (simp add: serving_def)
  have n: "\<not> ok response_404" "status response_404 = 404"
    "statusText response_404 = asc ''Not Found''"
    by (simp_all add: response_404_def)
  from downloadFromUrl_error_message
    [of "serving response_404" "asc ''https://x.test/files/a.docx''" response_404
        "Some (asc ''a.docx'')" 404]
    f n show_nat_404
  show ?thesis by (simp add: asc_def)
qed

text \<open>
  C3 (what the code does). A 200 response with an empty body: \<open>downloadFromUrl\<close> saves the
  empty blob and reports success, where \<open>handleDownloadFromLink\<close> of the chat view refuses
  the empty blob and saves nothing.
\<close>

theorem downloadFromUrl_empty_body:
  "downloadFromUrl
     (serving \<lparr>ok = True, status = 200, statusText = asc ''OK'',
               contentDisposition = None, blob = Inr []\<rparr>)
     (asc ''https://x.test/files/a.docx'') None =
   ([Fetched (asc ''https://x.test/files/a.docx''), Saved [] (asc ''a.docx''), CleanupScheduled],
    Inr True) \<and>
   handleDownloadFromLink
     (serving \<lparr>ok = True, status = 200, statusText = asc ''OK'',
               contentDisposition = None, blob = Inr []\<rparr>)
     (asc ''https://x.test/files/a.docx'') None =
   [Fetched (asc ''https://x.test/files/a.docx''), ToastError (error_prefix @ empty_file_message)]"
  by (simp add: downloadFromUrl_def handleDownloadFromLink_def serving_def resolve_filename_def
      disposition_filename_def url_filename_def ensure_extension_def asc_def)

text \<open>
  C5 (as stated, refuted). The header \<open>attachment; filename="it's.pdf"\<close>: the value of the
  \<open>filename=\<close> token with its surrounding quotes stripped is \<open>it's.pdf\<close>, but the file is
  saved as \<open>its.pdf\<close>.
\<close>

theorem downloadFromUrl_strips_inner_quote:
  "disposition_token header_apostrophe = Some ([34] @ asc ''it'' @ [39] @ asc ''s.pdf'' @ [34]) \<and>
   strip_surrounding_quotes ([34] @ asc ''it'' @ [39] @ asc ''s.pdf'' @ [34]) =
     asc ''it'' @ [39] @ asc ''s.pdf'' \<and>
   downloadFromUrl
     (serving \<lparr>ok = True, status = 200, statusText = asc ''OK'',
               contentDisposition = Some header_apostrophe, blob = Inr [80, 68, 70]\<rparr>)
     (asc ''https://x.test/files/a.docx'') None =
   ([Fetched (asc ''https://x.test/files/a.docx''), Saved [80, 68, 70] (asc ''its.pdf''),
     CleanupScheduled], Inr True) \<and>
   asc ''its.pdf'' \<noteq> asc ''it'' @ [39] @ asc ''s.pdf''"
proof (intro conjI)
  show "disposition_token header_apostrophe = Some ([34] @ asc ''it'' @ [39] @ asc ''s.pdf'' @ [34])"
    by (rule token_apostrophe)
  show "strip_surrounding_quotes ([34] @ asc ''it'' @ [39] @ asc ''s.pdf'' @ [34]) =
     asc ''it'' @ [39] @ asc ''s.pdf''"
    by (simp add: strip_surrounding_quotes_def asc_def)
  show "downloadFromUrl
     (serving \<lparr>ok = True, status = 200, statusText = asc ''OK'',
               contentDisposition = Some header_apostrophe, blob = Inr [80, 68, 70]\<rparr>)
     (asc ''https://x.test/files/a.docx'') None =
   ([Fetched (asc ''https://x.test/files/a.docx''), Saved [80, 68, 70] (asc ''its.pdf''),
     CleanupScheduled], Inr True)"
  proof -
    have "header_apostrophe \<noteq> []" by (simp add: header_apostrophe_def)
    then have "disposition_filename (Some header_apostrophe) = Some (asc ''its.pdf'')"
      by (simp add: disposition_filename_def token_apostrophe replace_quotes remove_quotes_def
          asc_def)
    then show ?thesis
      by (simp add: downloadFromUrl_def serving_def resolve_filename_def ensure_extension_def
          asc_def)
  qed
  show "asc ''its.pdf'' \<noteq> asc ''it'' @ [39] @ asc ''s.pdf''"
    by (simp add: asc_def)
qed

text \<open>
  C5 (amended). For a response that is ok and whose body was read, the name is
  \<open>chosen_name\<close> of the argument, the header and the parsed URL: the \<open>filename\<close>
  argument, if it is given and not empty; otherwise, from a \<open>Content-Disposition\<close> header
  that is not empty, the value at the first place where the text \<open>filename\<close> is followed,
  after units other than \<open>;\<close>, \<open>=\<close> and newline, by \<open>=\<close> (so \<open>xfilename="other.bin"\<close>
  ahead of \<open>filename="report.pdf"\<close> gives \<open>other.bin\<close>), a quoted value running to its
  closing quote and any other to the next \<open>;\<close> or newline, with every single and double
  quote removed, if that is not empty (so \<open>attachment; filename="report.pdf"\<close> gives
  \<open>report.pdf\<close> whatever the URL); otherwise the text after the last slash of the path of
  the URL; otherwise \<open>download\<close>. A name without a dot gets \<open>.docx\<close> appended, and the
  file is saved under it. Where the name has to come from the URL and the URL does not parse,
  nothing is saved and the download fails with the message of the parser behind the fixed
  prefix.
\<close>

theorem downloadFromUrl_filename_order:
  "fetch e u = Resolved r \<Longrightarrow> ok r \<Longrightarrow> blob r = Inr bytes \<Longrightarrow>
   downloadFromUrl e u filename =
     (case chosen_name filename (contentDisposition r) (pathname e u) of
        Inr name \<Rightarrow>
          ([Fetched u, Saved bytes (if 46 \<in> set name then name else name @ asc ''.docx''),
            CleanupScheduled], Inr True)
      | Inl msg \<Rightarrow>
          ([Fetched u],
           Inl (Error ([89, 252, 107, 108, 601, 109, 601, 32, 120, 601, 116, 97, 115, 305, 58, 32] @
                       msg)))) \<and>
   chosen_name (Some (asc ''given'')) (Some header_report) parsed = Inr (asc ''given'') \<and>
   chosen_name None (Some header_report) parsed = Inr (asc ''report.pdf'') \<and>
   chosen_name None (Some header_nested) parsed = Inr (asc ''other.bin'') \<and>
   chosen_name (Some []) (Some []) (Inr (asc ''/files/a.docx'')) = Inr (asc ''a.docx'') \<and>
   chosen_name None None (Inr (asc ''/files/'')) = Inr (asc ''download'') \<and>
   chosen_name None None (Inl msg) = Inl msg \<and>
   downloadFromUrl (unparsed response_plain) (asc ''/files/a.docx'') None =
     ([Fetched (asc ''/files/a.docx'')],
      Inl (Error ([89, 252, 107, 108, 601, 109, 601, 32, 120, 601, 116, 97, 115, 305, 58, 32] @
                  asc ''Invalid URL'')))"
proof (intro conjI)
  assume a: "fetch e u = Resolved r" "ok r" "blob r = Inr bytes"
  have w: "wrap_error m =
      Error ([89, 252, 107, 108, 601, 109, 601, 32, 120, 601, 116, 97, 115, 305, 58, 32] @ m)" for m
    by (simp add: wrap_error_def yukle_def asc_def)
  have df: "disposition_filename h = (case truthy h of None \<Rightarrow> None
              | Some x \<Rightarrow> map_option remove_quotes (header_token x))" for h
    by (simp add: disposition_filename_def disposition_token_eq replace_quotes
        split: option.splits)
  have rf: "resolve_filename e x u filename =
      (case chosen_name filename (contentDisposition x) (pathname e u) of
         Inl msg \<Rightarrow> Inl msg | Inr name \<Rightarrow> Inr (ensure_extension name))" for x
    unfolding resolve_filename_def chosen_name_def df url_filename_def last_split_on Let_def
    by (simp split: option.splits sum.splits)
  show "downloadFromUrl e u filename =
     (case chosen_name filename (contentDisposition r) (pathname e u) of
        Inr name \<Rightarrow>
          ([Fetched u, Saved bytes (if 46 \<in> set name then name else name @ asc ''.docx''),
            CleanupScheduled], Inr True)
      | Inl msg \<Rightarrow>
          ([Fetched u],
           Inl (Error ([89, 252, 107, 108, 601, 109, 601, 32, 120, 601, 116, 97, 115, 305, 58, 32] @
                       msg))))"
    using a unfolding downloadFromUrl_def rf w
    by (simp add: ensure_extension_def split: sum.splits)
next
  show "chosen_name (Some (asc ''given'')) (Some header_report) parsed = Inr (asc ''given'')"
    by (simp add: chosen_name_def asc_def)
next
  have "header_report \<noteq> []" by (simp add: header_report_def)
  then show "chosen_name None (Some header_report) parsed = Inr (asc ''report.pdf'')"
    by (simp add: chosen_name_def header_token_report remove_quotes_def asc_def)
next
  have "header_nested \<noteq> []" by (simp add: header_nested_def)
  then show "chosen_name None (Some header_nested) parsed = Inr (asc ''other.bin'')"
    by (simp add: chosen_name_def header_token_nested remove_quotes_def asc_def)
next
  show "chosen_name (Some []) (Some []) (Inr (asc ''/files/a.docx'')) = Inr (asc ''a.docx'')"
    by (simp add: chosen_name_def last_segment_def asc_def)
next
  show "chosen_name None None (Inr (asc ''/files/'')) = Inr (asc ''download'')"
    by (simp add: chosen_name_def last_segment_def asc_def)
next
  show "chosen_name None None (Inl msg) = Inl msg"
    by (simp add: chosen_name_def)
next
  show "downloadFromUrl (unparsed response_plain) (asc ''/files/a.docx'') None =
     ([Fetched (asc ''/files/a.docx'')],
      Inl (Error ([89, 252, 107, 108, 601, 109, 601, 32, 120, 601, 116, 97, 115, 305, 58, 32] @
                  asc ''Invalid URL'')))"
    by (simp add: downloadFromUrl_def unparsed_def response_plain_def resolve_filename_def
        disposition_filename_def wrap_error_def yukle_def asc_def)
qed

theorem downloadFromUrl_filename_order_witness:
  "downloadFromUrl
     (serving \<lparr>ok = True, status = 200, statusText = asc ''OK'',
               contentDisposition = Some header_nested, blob = Inr [80, 68, 70]\<rparr>)
     (asc ''https://x.test/files/a.docx'') None =
   ([Fetched (asc ''https://x.test/files/a.docx''), Saved [80, 68, 70] (asc ''other.bin''),
     CleanupScheduled], Inr True)"
  using downloadFromUrl_filename_order [of
      "serving \<lparr>ok = True, status = 200, statusText = asc ''OK'',
               contentDisposition = Some header_nested, blob = Inr [80, 68, 70]\<rparr>"
      "asc ''https://x.test/files/a.docx''"
      "\<lparr>ok = True, status = 200, statusText = asc ''OK'',
               contentDisposition = Some header_nested, blob = Inr [80, 68, 70]\<rparr>"
      "[80, 68, 70]" None "Inr (asc ''/files/a.docx'')" "[]"]
  by (simp add: serving_def asc_def)

text \<open>
  C6. \<open>generateFilename\<close> returns a non-empty string: the cleaned name, or \<open>template\<close>
  where the cleaned name is empty, then a dot and the extension. The cleaned name is the
  lower-cased label with every unit other than \<open>a-z\<close>, \<open>0-9\<close>, the seven Azerbaijani
  letters and white space removed, every white-space run turned into one underscore, runs of
  underscores collapsed, and one underscore stripped at either end; so it consists of those
  letters, digits and underscores only, has no two underscores in a row and neither begins
  nor ends with one. The labels \<open>!!!\<close> and \<open>Mezuniyyet Erizesi\<close> (with a capital schwa)
  give \<open>template.docx\<close> and \<open>mezuniyyet_erizesi.docx\<close> (with a small schwa).
\<close>

theorem generateFilename_normalized:
  "generateFilename lc label ext =
     (if cleanName lc label = [] then asc ''template'' else cleanName lc label) @ asc ''.'' @
     (case ext of None \<Rightarrow> asc ''docx'' | Some x \<Rightarrow> x) \<and>
   cleanName lc label =
     strip_edges (collapse_runs (\<lambda>c. c = 95) 2 [95]
       (collapse_runs is_space 1 [95]
         (filter (\<lambda>c. name_char c \<or> is_space c) (lc label)))) \<and>
   generateFilename lc label ext \<noteq> [] \<and>
   (\<forall>c\<in>set (cleanName lc label). name_char c \<or> c = 95) \<and>
   \<not> adjacent (\<lambda>c. c = 95) (cleanName lc label) \<and>
   (cleanName lc label \<noteq> [] \<longrightarrow>
      hd (cleanName lc label) \<noteq> 95 \<and> last (cleanName lc label) \<noteq> 95) \<and>
   generateFilename toLowerCase_az (asc ''!!!'') (Some (asc ''docx'')) = asc ''template.docx'' \<and>
   generateFilename toLowerCase_az label_vacation (Some (asc ''docx'')) =
     asc ''mezuniyyet_'' @ [601] @ asc ''rizesi.docx''"
proof (intro conjI)
  show "generateFilename lc label ext =
     (if cleanName lc label = [] then asc ''template'' else cleanName lc label) @ asc ''.'' @
     (case ext of None \<Rightarrow> asc ''docx'' | Some x \<Rightarrow> x)"
    by (simp add: generateFilename_def Let_def)
  show "cleanName lc label =
     strip_edges (collapse_runs (\<lambda>c. c = 95) 2 [95]
       (collapse_runs is_space 1 [95]
         (filter (\<lambda>c. name_char c \<or> is_space c) (lc label))))"
    by (rule cleanName_eq)
  show "generateFilename lc label ext \<noteq> []"
    by (simp add: generateFilename_def Let_def asc_def)
  show "\<forall>c\<in>set (cleanName lc label). name_char c \<or> c = 95"
    using cleanName_props [of lc label] by blast
  show "\<not> adjacent (\<lambda>c. c = 95) (cleanName lc label)"
    using cleanName_props [of lc label] by blast
  show "cleanName lc label \<noteq> [] \<longrightarrow>
      hd (cleanName lc label) \<noteq> 95 \<and> last (cleanName lc label) \<noteq> 95"
    using cleanName_props [of lc label] by blast
  show "generateFilename toLowerCase_az (asc ''!!!'') (Some (asc ''docx'')) = asc ''template.docx''"
    unfolding generateFilename_def Let_def clean_bangs by (simp add: asc_def)
  show "generateFilename toLowerCase_az label_vacation (Some (asc ''docx'')) =
     asc ''mezuniyyet_'' @ [601] @ asc ''rizesi.docx''"
    unfolding generateFilename_def Let_def clean_vacation by (simp add: asc_def)
qed

theorem generateFilename_normalized_witness:
  "cleanName toLowerCase_az label_vacation = asc ''mezuniyyet_'' @ [601] @ asc ''rizesi'' \<and>
   cleanName toLowerCase_az label_vacation \<noteq> [] \<and>
   hd (cleanName toLowerCase_az label_vacation) \<noteq> 95 \<and>
   last (cleanName toLowerCase_az label_vacation) \<noteq> 95"
proof -
  have ne: "cleanName toLowerCase_az label_vacation \<noteq> []"
    by (simp add: clean_vacation asc_def)
  from generateFilename_normalized [of toLowerCase_az label_vacation None] ne clean_vacation
  show ?thesis by blast
qed

text \<open>
  C1 (what the code does). The set of processed URLs holds the captured text as it is, while
  the link stores it trimmed; a markdown target may end in a space. So the text
  \<open>[a](https://x.test/a.docx) [b](https://x.test/a.docx )\<close> yields two links with the same
  \<open>url\<close>. The copy of the parser in the chat view keeps no set of processed URLs at all and
  returns a repeated link twice.
\<close>

theorem parseDownloadLinks_duplicate_url:
  "parseDownloadLinks canonicalize text_trailing_space =
     Some (Inr [\<lparr>ltext = asc ''a'', url = asc ''https://x.test/a.docx'', ltype = markdown,
                 fullMatch = asc ''[a](https://x.test/a.docx)'', priority = 1\<rparr>,
                \<lparr>ltext = asc ''b'', url = asc ''https://x.test/a.docx'', ltype = markdown,
                 fullMatch = asc ''[b](https://x.test/a.docx )'', priority = 1\<rparr>]) \<and>
   parseDownloadLinks_dashboard canonicalize text_repeated =
     Some [\<lparr>dtext = Some (asc ''a''), durl = asc ''https://x.test/a.docx'',
            dfullMatch = asc ''[a](https://x.test/a.docx)'', dtype = dashboard_markdown\<rparr>,
           \<lparr>dtext = Some (asc ''b''), durl = asc ''https://x.test/a.docx'',
            dfullMatch = asc ''[b](https://x.test/a.docx)'', dtype = dashboard_markdown\<rparr>]"
proof
  show "parseDownloadLinks canonicalize text_trailing_space =
     Some (Inr [\<lparr>ltext = asc ''a'', url = asc ''https://x.test/a.docx'', ltype = markdown,
                 fullMatch = asc ''[a](https://x.test/a.docx)'', priority = 1\<rparr>,
                \<lparr>ltext = asc ''b'', url = asc ''https://x.test/a.docx'', ltype = markdown,
                 fullMatch = asc ''[b](https://x.test/a.docx )'', priority = 1\<rparr>])"
    by (simp add: text_trailing_space_def parse_eval rx_eval rx_defs)
  show "parseDownloadLinks_dashboard canonicalize text_repeated =
     Some [\<lparr>dtext = Some (asc ''a''), durl = asc ''https://x.test/a.docx'',
            dfullMatch = asc ''[a](https://x.test/a.docx)'', dtype = dashboard_markdown\<rparr>,
           \<lparr>dtext = Some (asc ''b''), durl = asc ''https://x.test/a.docx'',
            dfullMatch = asc ''[b](https://x.test/a.docx)'', dtype = dashboard_markdown\<rparr>]"
    by (rule dashboard_repeated)
qed

text \<open>
  C2. The list returned by \<open>parseDownloadLinks\<close> is in ascending order of priority and
  keeps, among links of equal priority, the order of discovery (it is the list of discovery
  itself, which the scan already builds in that order). The text with an emoji link to
  \<open>a.docx\<close> and a markdown link \<open>Click\<close> to \<open>b.docx\<close> gives exactly two links: the
  markdown one (priority 1, label \<open>Click\<close>) before the emoji one (priority 2, the default
  label).
\<close>

theorem parseDownloadLinks_sorted:
  "(\<exists>found seen links. discoverLinks cz content = Some (Inr (found, seen)) \<and>
      parseDownloadLinks cz content = Some (Inr links) \<and>
      sorted (map priority links) \<and> links = found \<and> mset links = mset found \<and>
      (\<forall>k. filter (\<lambda>l. priority l = k) links = filter (\<lambda>l. priority l = k) found)) \<and>
   parseDownloadLinks canonicalize text_two_links =
     Some (Inr [\<lparr>ltext = asc ''Click'', url = asc ''https://x.test/b.docx'', ltype = markdown,
                 fullMatch = asc ''[Click](https://x.test/b.docx)'', priority = 1\<rparr>,
                \<lparr>ltext = yukle, url = asc ''https://x.test/a.docx'', ltype = emoji_direct,
                 fullMatch = [55357, 56549] @ asc '' '' @ yukle @ asc '': https://x.test/a.docx'',
                 priority = 2\<rparr>])"
proof
  from parseDownloadLinks_ok [of cz content] obtain found seen b where
    d: "discoverLinks cz content = Some (Inr (found, seen))"
    and p: "parseDownloadLinks cz content = Some (Inr found)"
    and ok: "links_ok content b found" by blast
  from ok have "sorted (map priority found)" by (simp add: links_ok_def)
  with d p show "\<exists>found seen links. discoverLinks cz content = Some (Inr (found, seen)) \<and>
      parseDownloadLinks cz content = Some (Inr links) \<and>
      sorted (map priority links) \<and> links = found \<and> mset links = mset found \<and>
      (\<forall>k. filter (\<lambda>l. priority l = k) links = filter (\<lambda>l. priority l = k) found)"
    by blast
next
  show "parseDownloadLinks canonicalize text_two_links =
     Some (Inr [\<lparr>ltext = asc ''Click'', url = asc ''https://x.test/b.docx'', ltype = markdown,
                 fullMatch = asc ''[Click](https://x.test/b.docx)'', priority = 1\<rparr>,
                \<lparr>ltext = yukle, url = asc ''https://x.test/a.docx'', ltype = emoji_direct,
                 fullMatch = [55357, 56549] @ asc '' '' @ yukle @ asc '': https://x.test/a.docx'',
                 priority = 2\<rparr>])"
    by (simp add: text_two_links_def parse_eval rx_eval rx_defs)
qed

text \<open>
  C8. A text without the shape of an http(s) URL gives the empty list. In every result each
  link has a non-empty \<open>url\<close> that begins with \<open>http\<close>, and the scan raises no error. A
  match whose URL group is undefined, empty or does not begin with \<open>http\<close> leaves the
  state as it is and raises no error.
\<close>

theorem parseDownloadLinks_http_only:
  "(\<not> has_url_shape cz content \<longrightarrow> parseDownloadLinks cz content = Some (Inr [])) \<and>
   (\<exists>links. parseDownloadLinks cz content = Some (Inr links) \<and>
      (\<forall>l\<in>set links. url l \<noteq> [] \<and> prefix (asc ''http'') (url l))) \<and>
   (g (urlIndex p) = None \<or> g (urlIndex p) = Some [] \<or>
    (\<exists>u'. g (urlIndex p) = Some u' \<and> \<not> prefix (asc ''http'') u') \<longrightarrow>
      process_match p whole g st = Inr st)"
proof (intro conjI impI)
  show "parseDownloadLinks cz content = Some (Inr [])" if "\<not> has_url_shape cz content"
    using that by (rule parse_no_shape)
  from parseDownloadLinks_ok [of cz content] obtain found b where
    "parseDownloadLinks cz content = Some (Inr found)" "links_ok content b found" by blast
  then show "\<exists>links. parseDownloadLinks cz content = Some (Inr links) \<and>
      (\<forall>l\<in>set links. url l \<noteq> [] \<and> prefix (asc ''http'') (url l))"
    by (auto simp: links_ok_def)
  show "process_match p whole g st = Inr st"
    if "g (urlIndex p) = None \<or> g (urlIndex p) = Some [] \<or>
        (\<exists>u'. g (urlIndex p) = Some u' \<and> \<not> prefix (asc ''http'') u')"
    using that by (rule process_match_skip)
qed

theorem parseDownloadLinks_http_only_witness:
  "\<not> has_url_shape canonicalize (asc ''see the attached file'') \<and>
   parseDownloadLinks canonicalize (asc ''see the attached file'') = Some (Inr [])"
  using parseDownloadLinks_http_only [of canonicalize "asc ''see the attached file''"]
    no_shape_example by blast




end
